theory Spec2Isabelle
  imports Complex_Main "HOL-Library.Log_Nat"
begin

section \<open>Python values and string primitives\<close>

text \<open>
  The tools of \<^verbatim>\<open>server.py\<close> are modelled as pure functions. Everything a tool reads
  from its environment (the outcome of the external build, whether a report file
  exists, the result of parsing it) is an explicit argument; every exception the
  Python can raise is a value of \<open>py_exception\<close>, and a call that raises returns
  \<open>Inl\<close>.

  A Python \<^verbatim>\<open>str\<close> is a \<open>string\<close> whose characters are the code points below 256;
  the character classes below are Python's on that range. Python's \<^verbatim>\<open>int\<close> is \<open>int\<close>.
\<close>

datatype py_exception =
  AttributeError | ValueError | OSError | OverflowError | ZeroDivisionError

datatype pyval = VNone | VStr string | VInt int | VBool bool

definition code_point :: "char \<Rightarrow> int" where
  "code_point c = of_char c"

text \<open>\<^verbatim>\<open>str.lower\<close>: the upper-case letters below 256 are A-Z and U+00C0..U+00DE
  without the multiplication sign U+00D7; each maps to the code point 32 above.\<close>

definition lower_char :: "char \<Rightarrow> char" where
  "lower_char c =
     (let n = code_point c in
      if (65 \<le> n \<and> n \<le> 90) \<or> (192 \<le> n \<and> n \<le> 222 \<and> n \<noteq> 215)
      then char_of (n + 32) else c)"

definition lower :: "string \<Rightarrow> string" where
  "lower s = map lower_char s"

fun startswith :: "string \<Rightarrow> string \<Rightarrow> bool" where
  "startswith s [] = True"
| "startswith [] (p # ps) = False"
| "startswith (c # cs) (p # ps) = (c = p \<and> startswith cs ps)"

text \<open>\<^verbatim>\<open>sub in s\<close> on strings: \<open>sub\<close> occurs in \<open>s\<close> as a contiguous block.\<close>

fun str_in :: "string \<Rightarrow> string \<Rightarrow> bool" where
  "str_in sub [] = (sub = [])"
| "str_in sub (c # cs) = (startswith (c # cs) sub \<or> str_in sub cs)"

text \<open>\<^verbatim>\<open>str.isspace\<close> per character, as used by \<^verbatim>\<open>str.strip()\<close> and by \<^verbatim>\<open>int()\<close>.\<close>

definition is_space :: "char \<Rightarrow> bool" where
  "is_space c =
     (let n = code_point c in
      (9 \<le> n \<and> n \<le> 13) \<or> (28 \<le> n \<and> n \<le> 32) \<or> n = 133 \<or> n = 160)"

definition strip :: "string \<Rightarrow> string" where
  "strip s = rev (dropWhile is_space (rev (dropWhile is_space s)))"

text \<open>The decimal digits (\<^verbatim>\<open>\d\<close>) and the word characters (\<^verbatim>\<open>\w\<close>: alphanumeric
  or underscore) of the \<^verbatim>\<open>re\<close> module on \<^verbatim>\<open>str\<close> patterns.\<close>

definition is_digit :: "char \<Rightarrow> bool" where
  "is_digit c = (let n = code_point c in 48 \<le> n \<and> n \<le> 57)"

definition is_word_char :: "char \<Rightarrow> bool" where
  "is_word_char c =
     (let n = code_point c in
      (48 \<le> n \<and> n \<le> 57) \<or> (65 \<le> n \<and> n \<le> 90) \<or> (97 \<le> n \<and> n \<le> 122) \<or> n = 95
      \<or> n = 170 \<or> n = 178 \<or> n = 179 \<or> n = 181 \<or> n = 185 \<or> n = 186
      \<or> (188 \<le> n \<and> n \<le> 190) \<or> (192 \<le> n \<and> n \<le> 214) \<or> (216 \<le> n \<and> n \<le> 246)
      \<or> (248 \<le> n \<and> n \<le> 255))"

definition digit_val :: "char \<Rightarrow> int" where
  "digit_val c = code_point c - 48"

text \<open>\<^verbatim>\<open>str(i)\<close> for an integer. The tools convert two constants and the length of a
  list only, numbers far below the interpreter's limit on the digits of a conversion.\<close>

function digits_of :: "int \<Rightarrow> string" where
  "digits_of n =
     (if n < 10 then [char_of (48 + n)]
      else digits_of (n div 10) @ [char_of (48 + n mod 10)])"
  by pat_completeness auto
termination
  by (relation "measure nat") auto

declare digits_of.simps [simp del]

definition str_int :: "int \<Rightarrow> string" where
  "str_int i = (if i < 0 then CHR ''-'' # digits_of (- i) else digits_of i)"

text \<open>
  \<^verbatim>\<open>int(s)\<close> for a string, base 10: surrounding whitespace is dropped, one sign is
  allowed, then come digits, with single underscores allowed between two digits.
  \<open>None\<close> stands for the \<^verbatim>\<open>ValueError\<close> the call raises: for a text that is not a
  number, and for one with more digit characters (leading zeros counted, underscores
  not) than the interpreter's limit \<^verbatim>\<open>sys.get_int_max_str_digits()\<close>, 4300 by default.
\<close>

definition int_max_str_digits :: int where
  "int_max_str_digits = 4300"

fun digits_loop :: "int \<Rightarrow> string \<Rightarrow> int option" where
  "digits_loop acc [] = Some acc"
| "digits_loop acc [c] = (if is_digit c then Some (10 * acc + digit_val c) else None)"
| "digits_loop acc (c # d # ds) =
     (if is_digit c then digits_loop (10 * acc + digit_val c) (d # ds)
      else if c = CHR ''_'' \<and> is_digit d then digits_loop (10 * acc + digit_val d) ds
      else None)"

definition parse_unsigned :: "string \<Rightarrow> int option" where
  "parse_unsigned s =
     (case s of [] \<Rightarrow> None
      | c # cs \<Rightarrow>
          if is_digit c \<and> int (length (filter is_digit s)) \<le> int_max_str_digits
          then digits_loop (digit_val c) cs else None)"

definition py_int :: "string \<Rightarrow> int option" where
  "py_int s =
     (case strip s of
        [] \<Rightarrow> None
      | c # cs \<Rightarrow>
          if c = CHR ''-'' then map_option uminus (parse_unsigned cs)
          else if c = CHR ''+'' then parse_unsigned cs
          else parse_unsigned (c # cs))"

section \<open>The boundary-value generator\<close>

definition JAVA_INT_MAX :: int where
  "JAVA_INT_MAX = 2147483647"

definition JAVA_INT_MIN :: int where
  "JAVA_INT_MIN = - 2147483648"

text \<open>
  \<^verbatim>\<open>re.findall(r'\b\d+\b', s)\<close>, scanning left to right. \<open>prev_word\<close> says whether the
  character before the current position is a word character (false at the start).
  A match starts at a digit that follows a word boundary, takes the whole run of digits
  (no shorter run can end at a boundary, two digits being word characters both), and
  needs a boundary after the run; the scan resumes after a match, and one character
  further after a failure.
\<close>

function findall_numbers :: "bool \<Rightarrow> string \<Rightarrow> string list" where
  "findall_numbers prev_word [] = []"
| "findall_numbers prev_word (c # cs) =
    (if is_digit c \<and> \<not> prev_word then
       (case dropWhile is_digit cs of
          [] \<Rightarrow> [c # takeWhile is_digit cs]
        | r # rest \<Rightarrow>
            if is_word_char r then findall_numbers (is_word_char c) cs
            else (c # takeWhile is_digit cs) # findall_numbers True (r # rest))
     else findall_numbers (is_word_char c) cs)"
  by pat_completeness auto
termination
proof (relation "measure (\<lambda>(p, s). length s)")
  fix prev_word :: bool and c :: char and cs :: string and r :: char and rest :: string
  assume "dropWhile is_digit cs = r # rest"
  then have "length (r # rest) \<le> length cs"
    by (metis length_dropWhile_le)
  then show "((True, r # rest), (prev_word, c # cs)) \<in> measure (\<lambda>(p, s). length s)"
    by simp
qed auto

text \<open>\<^verbatim>\<open>int(n)\<close> on a run of decimal digits: it raises \<^verbatim>\<open>ValueError\<close> when the run is
  longer than the interpreter's limit.\<close>

definition int_of_digits :: "string \<Rightarrow> py_exception + int" where
  "int_of_digits ds =
     (if int (length ds) \<le> int_max_str_digits
      then Inr (foldl (\<lambda>acc c. 10 * acc + digit_val c) 0 ds)
      else Inl ValueError)"

text \<open>Line 101, the list comprehension \<^verbatim>\<open>[int(n) for n in ...]\<close>: the first conversion
  that raises ends it.\<close>

fun ints_of :: "string list \<Rightarrow> py_exception + int list" where
  "ints_of [] = Inr []"
| "ints_of (n # ns) =
     (case int_of_digits n of
        Inl e \<Rightarrow> Inl e
      | Inr v \<Rightarrow> (case ints_of ns of Inl e \<Rightarrow> Inl e | Inr vs \<Rightarrow> Inr (v # vs)))"

text \<open>Lines 100-101: the numbers found in the lower-cased constraints.\<close>

definition constraint_numbers :: "string \<Rightarrow> py_exception + int list" where
  "constraint_numbers constraints = ints_of (findall_numbers False (lower constraints))"

text \<open>Lines 103-104: \<^verbatim>\<open>values.extend([num - 1, num, num + 1])\<close> for each number.\<close>

definition extend_values :: "pyval list \<Rightarrow> int list \<Rightarrow> pyval list" where
  "extend_values vs numbers =
     foldl (\<lambda>acc num. acc @ [VInt (num - 1), VInt num, VInt (num + 1)]) vs numbers"

text \<open>
  \<^verbatim>\<open>list(dict.fromkeys(values))\<close>: the keys are inserted one by one into a dictionary that
  keeps insertion order, a key already present keeping its place. At the one place the
  generator calls it, the values are \<^verbatim>\<open>None\<close>, strings and integers, on which Python's
  \<^verbatim>\<open>==\<close> is equality of the model's values.
\<close>

definition dict_add_key :: "'a list \<Rightarrow> 'a \<Rightarrow> 'a list" where
  "dict_add_key keys k = (if k \<in> set keys then keys else keys @ [k])"

definition fromkeys :: "'a list \<Rightarrow> 'a list" where
  "fromkeys xs = foldl dict_add_key [] xs"

text \<open>Lines 90-97: the values chosen by type; \<open>Inl\<close> is the early return of the
  boolean branch, \<open>Inr\<close> the list \<^verbatim>\<open>values\<close> after the chain.\<close>

definition type_values :: "string \<Rightarrow> pyval list + pyval list" where
  "type_values param_type =
     (if param_type = ''int'' \<or> param_type = ''long''
        then Inr [VInt 0, VInt 1, VInt (- 1), VInt JAVA_INT_MAX, VInt JAVA_INT_MIN]
      else if param_type = ''String''
        then Inr [VNone, VStr '''', VStr '' '', VStr (replicate 1000 (CHR ''a''))]
      else if param_type = ''boolean''
        then Inl [VBool True, VBool False]
      else Inr [])"

text \<open>\<^verbatim>\<open>generate_bva_test_cases\<close>: \<open>Inr\<close> is the returned list, \<open>Inl\<close> an exception that
  leaves the function (it has no handler).\<close>

definition generate_bva_test_cases ::
  "string \<Rightarrow> string \<Rightarrow> string \<Rightarrow> string \<Rightarrow> py_exception + pyval list" where
  "generate_bva_test_cases param_name param_type function_name constraints =
     (if str_in ''default'' (lower param_name) then Inr [VInt 0, VInt 1, VInt (- 1)]
      else if param_type = ''String'' \<and>
              (str_in ''toint'' (lower function_name) \<or> str_in ''parse'' (lower function_name))
        then Inr [VNone, VStr '''', VStr '' '',
                  VStr ''0'', VStr ''1'', VStr ''-1'',
                  VStr (str_int JAVA_INT_MAX), VStr (str_int JAVA_INT_MIN),
                  VStr (str_int (JAVA_INT_MAX + 1)), VStr (str_int (JAVA_INT_MIN - 1)),
                  VStr ''abc'']
      else (case type_values param_type of
              Inl early \<Rightarrow> Inr early
            | Inr vs \<Rightarrow>
                (case constraint_numbers constraints of
                   Inl e \<Rightarrow> Inl e
                 | Inr numbers \<Rightarrow> Inr (fromkeys (extend_values vs numbers)))))"

text \<open>The position of the first occurrence of \<open>x\<close> in \<open>xs\<close> (the length of \<open>xs\<close> when
  there is none).\<close>

definition first_index :: "'a list \<Rightarrow> 'a \<Rightarrow> nat" where
  "first_index xs x = length (takeWhile (\<lambda>y. y \<noteq> x) xs)"

section \<open>XML reports\<close>

text \<open>
  An element of an \<^verbatim>\<open>xml.etree.ElementTree\<close> document: its tag, its attributes, its
  text (\<open>None\<close> when the element has no text content) and its child elements in document
  order. An XML parser rejects a repeated attribute, so looking an attribute up in the
  list is looking it up in the element's dictionary.
\<close>

datatype element =
  Element (tag: string) (attrib: "(string \<times> string) list") (elem_text: "string option")
    (children: "element list")

text \<open>\<^verbatim>\<open>elem.get(key)\<close>: the attribute's value, or \<open>None\<close>.\<close>

definition get :: "element \<Rightarrow> string \<Rightarrow> string option" where
  "get e key = map_of (attrib e) key"

text \<open>\<^verbatim>\<open>elem.findall(t)\<close> for a tag \<open>t\<close>: the children with that tag, in document order;
  \<^verbatim>\<open>elem.findall('a/b')\<close>: the children tagged \<open>b\<close> of the children tagged \<open>a\<close>.\<close>

definition findall :: "element \<Rightarrow> string \<Rightarrow> element list" where
  "findall e t = filter (\<lambda>c. tag c = t) (children e)"

definition findall_path :: "element \<Rightarrow> string \<Rightarrow> string \<Rightarrow> element list" where
  "findall_path e a b = concat (map (\<lambda>c. findall c b) (findall e a))"

text \<open>What \<^verbatim>\<open>ET.parse\<close> does with a file that exists: it raises \<^verbatim>\<open>ET.ParseError\<close> or
  returns the tree, given here by its root element. A report that may be absent is an option of
  this.\<close>

datatype parse_outcome = ParseError | Parsed element

text \<open>\<^verbatim>\<open>int(elem.get(key, 0))\<close>: a missing attribute counts as 0, a value that is not a
  number raises \<^verbatim>\<open>ValueError\<close>.\<close>

definition get_int :: "element \<Rightarrow> string \<Rightarrow> py_exception + int" where
  "get_int e key =
     (case get e key of
        None \<Rightarrow> Inr 0
      | Some s \<Rightarrow> (case py_int s of None \<Rightarrow> Inl ValueError | Some i \<Rightarrow> Inr i))"

section \<open>The static-analysis tool\<close>

text \<open>One entry of the violations list; the fields are the dictionary's keys \<^verbatim>\<open>file\<close>,
  \<^verbatim>\<open>line\<close>, \<^verbatim>\<open>rule\<close>, \<^verbatim>\<open>priority\<close> and \<^verbatim>\<open>description\<close>.\<close>

record violation =
  v_file :: "string option"
  v_line :: "string option"
  v_rule :: "string option"
  v_priority :: "string option"
  v_description :: string

text \<open>The dictionary \<^verbatim>\<open>run_pmd_analysis\<close> returns: an \<^verbatim>\<open>error\<close> entry with a fixed message
  or with the text of an unexpected exception, or a \<^verbatim>\<open>status\<close> entry, alone or with
  the \<^verbatim>\<open>violations_summary\<close>.\<close>

datatype pmd_result =
  Pmd_error string
| Pmd_unexpected py_exception
| Pmd_status string
| Pmd_found string "violation list"

text \<open>Lines 43-50, the inner loop: \<^verbatim>\<open>violation.text.strip()\<close> raises \<^verbatim>\<open>AttributeError\<close>
  when the element has no text.\<close>

fun add_violations ::
  "string option \<Rightarrow> element list \<Rightarrow> violation list \<Rightarrow> py_exception + violation list" where
  "add_violations file_name [] violations = Inr violations"
| "add_violations file_name (v # vs) violations =
     (case elem_text v of
        None \<Rightarrow> Inl AttributeError
      | Some t \<Rightarrow>
          add_violations file_name vs
            (violations @
             [\<lparr>v_file = file_name, v_line = get v ''beginline'', v_rule = get v ''rule'',
               v_priority = get v ''priority'', v_description = strip t\<rparr>]))"

text \<open>Lines 41-50, the loop over the \<^verbatim>\<open>file\<close> elements.\<close>

fun scan_files :: "element list \<Rightarrow> violation list \<Rightarrow> py_exception + violation list" where
  "scan_files [] violations = Inr violations"
| "scan_files (file_elem # fs) violations =
     (case add_violations (get file_elem ''name'') (findall file_elem ''violation'') violations of
        Inl e \<Rightarrow> Inl e
      | Inr violations' \<Rightarrow> scan_files fs violations')"

text \<open>
  \<^verbatim>\<open>run_pmd_analysis\<close>. \<open>subprocess_error\<close> is the exception \<^verbatim>\<open>subprocess.run\<close> raised, if
  any (its exit code is ignored); \<open>report\<close> is \<open>None\<close> when \<^verbatim>\<open>target/pmd.xml\<close> does not
  exist after the build.
\<close>

definition run_pmd_analysis :: "py_exception option \<Rightarrow> parse_outcome option \<Rightarrow> pmd_result" where
  "run_pmd_analysis subprocess_error report =
     (case subprocess_error of
        Some e \<Rightarrow> Pmd_unexpected e
      | None \<Rightarrow>
          (case report of
             None \<Rightarrow> Pmd_error ''PMD ran but the pmd.xml report was not found.''
           | Some ParseError \<Rightarrow> Pmd_error ''Failed to parse pmd.xml report.''
           | Some (Parsed root_elem) \<Rightarrow>
               (case scan_files (findall root_elem ''file'') [] of
                  Inl e \<Rightarrow> Pmd_unexpected e
                | Inr violations \<Rightarrow>
                    if violations = []
                    then Pmd_status ''PMD analysis passed. No violations found.''
                    else Pmd_found
                           (''PMD analysis found '' @ str_int (int (length violations))
                              @ '' total violations.'')
                           (take 20 violations))))"

section \<open>Python floats\<close>

text \<open>
  A Python \<^verbatim>\<open>float\<close> is an IEEE 754 binary64 number: 53 significant bits, exponents
  down to the subnormal step \<open>2 powi -1074\<close>, magnitudes below \<open>2 powi 1024\<close>, and the two
  infinities. A finite float is modelled by the rational it denotes (the sign of a zero
  is not kept: \<^verbatim>\<open>-0.0 == 0.0\<close>).

  \<open>binade x\<close> is the exponent \<open>e\<close> with \<open>2 powi e \<le> \<bar>x\<bar> < 2 powi (e + 1)\<close>, for \<open>x\<close> other
  than 0, and \<open>ulp x\<close> the distance of the binary64 numbers around \<open>x\<close>.
\<close>

definition binade :: "rat \<Rightarrow> int" where
  "binade x =
     (case quotient_of \<bar>x\<bar> of
        (p, q) \<Rightarrow> (let e0 = bitlen p - bitlen q in if 2 powi e0 \<le> \<bar>x\<bar> then e0 else e0 - 1))"

definition ulp :: "rat \<Rightarrow> rat" where
  "ulp x = 2 powi (max (binade x - 52) (- 1074))"

text \<open>The integer nearest to \<open>x\<close>, the even one of the two when \<open>x\<close> lies halfway.\<close>

definition round_half_even :: "rat \<Rightarrow> int" where
  "round_half_even x =
     (let f = \<lfloor>x\<rfloor>; d = x - of_int f
      in if d < 1 / 2 then f else if 1 / 2 < d then f + 1 else if even f then f else f + 1)"

text \<open>Rounding to nearest, ties to even: the binary64 number nearest to \<open>x\<close>, ignoring
  the upper end of the range (a result of magnitude \<open>2 powi 1024\<close> or more stands for an
  overflow).\<close>

definition nearest_double :: "rat \<Rightarrow> rat" where
  "nearest_double x = (if x = 0 then 0 else of_int (round_half_even (x / ulp x)) * ulp x)"

datatype py_float = Float rat | PosInf | NegInf

text \<open>The bound of the finite floats, \<open>2 powi 1024\<close>, written as a power of a power.\<close>

definition double_overflow :: rat where
  "double_overflow = (2 ^ 32) ^ 32"

text \<open>\<^verbatim>\<open>a / b\<close> on integers: the correctly rounded quotient; it raises
  \<^verbatim>\<open>ZeroDivisionError\<close> for \<open>b = 0\<close> and \<^verbatim>\<open>OverflowError\<close> when the quotient is too large
  for a float.\<close>

definition int_truediv :: "int \<Rightarrow> int \<Rightarrow> py_exception + rat" where
  "int_truediv a b =
     (if b = 0 then Inl ZeroDivisionError
      else (let r = nearest_double (of_int a / of_int b)
            in if double_overflow \<le> \<bar>r\<bar> then Inl OverflowError else Inr r))"

text \<open>\<^verbatim>\<open>x * y\<close> on finite floats: the correctly rounded product, an infinity on overflow.\<close>

definition float_mul :: "rat \<Rightarrow> rat \<Rightarrow> py_float" where
  "float_mul x y =
     (let r = nearest_double (x * y)
      in if double_overflow \<le> r then PosInf
         else if r \<le> - double_overflow then NegInf else Float r)"

text \<open>The multiple of 1/100 nearest to \<open>x\<close>, the even one of the two when \<open>x\<close> lies
  halfway.\<close>

definition round2 :: "rat \<Rightarrow> rat" where
  "round2 x = of_int (round_half_even (x * 100)) / 100"

text \<open>\<^verbatim>\<open>round(x, 2)\<close> on a float: an infinity is returned as it is; otherwise the exact
  value of \<open>x\<close> is rounded to two decimals, and the result is the float nearest to that
  decimal number.\<close>

definition float_round2 :: "py_float \<Rightarrow> py_float" where
  "float_round2 x = (case x of Float v \<Rightarrow> Float (nearest_double (round2 v)) | _ \<Rightarrow> x)"

section \<open>The quality dashboard\<close>

record test_run_summary =
  total_tests :: int
  passed :: int
  failures :: int
  errors :: int
  skipped :: int

record code_coverage_summary =
  line_coverage_percent :: py_float
  branch_coverage_percent :: py_float
  method_coverage_percent :: py_float

record dashboard =
  test_run_summary :: test_run_summary
  code_coverage_summary :: code_coverage_summary

text \<open>Lines 130-133: the four running totals (tests, failures, errors, skipped) after
  one more suite; each \<^verbatim>\<open>int(...)\<close> can raise.\<close>

definition add_suite :: "int \<times> int \<times> int \<times> int \<Rightarrow> element \<Rightarrow> py_exception + int \<times> int \<times> int \<times> int" where
  "add_suite totals root_elem =
     (case totals of (sum_tests, sum_failures, sum_errors, sum_skipped) \<Rightarrow>
      (case get_int root_elem ''tests'' of Inl x \<Rightarrow> Inl x | Inr t \<Rightarrow>
      (case get_int root_elem ''failures'' of Inl x \<Rightarrow> Inl x | Inr f \<Rightarrow>
      (case get_int root_elem ''errors'' of Inl x \<Rightarrow> Inl x | Inr e \<Rightarrow>
      (case get_int root_elem ''skipped'' of Inl x \<Rightarrow> Inl x | Inr s \<Rightarrow>
         Inr (sum_tests + t, sum_failures + f, sum_errors + e, sum_skipped + s))))))"

text \<open>Lines 126-135: the loop over the report files; a file that does not parse is
  skipped, any other exception leaves the loop and the function.\<close>

fun sum_reports ::
  "parse_outcome list \<Rightarrow> int \<times> int \<times> int \<times> int \<Rightarrow> py_exception + int \<times> int \<times> int \<times> int" where
  "sum_reports [] totals = Inr totals"
| "sum_reports (ParseError # rs) totals = sum_reports rs totals"
| "sum_reports (Parsed root_elem # rs) totals =
     (case add_suite totals root_elem of
        Inl x \<Rightarrow> Inl x
      | Inr totals' \<Rightarrow> sum_reports rs totals')"

text \<open>Line 156: \<^verbatim>\<open>(covered / total) * 100 if total > 0 else 100.0\<close>.\<close>

definition percentage :: "int \<Rightarrow> int \<Rightarrow> py_exception + py_float" where
  "percentage missed covered =
     (let total = missed + covered
      in if total > 0
         then (case int_truediv covered total of
                 Inl x \<Rightarrow> Inl x
               | Inr ratio \<Rightarrow> Inr (float_mul ratio 100))
         else Inr (Float 100))"

text \<open>Lines 151-163: one top-level counter; the state is the three percentages
  (line, branch, method). The percentage is computed before the type is looked at.\<close>

definition apply_counter ::
  "py_float \<times> py_float \<times> py_float \<Rightarrow> element \<Rightarrow> py_exception + py_float \<times> py_float \<times> py_float" where
  "apply_counter cov counter =
     (case cov of (line_coverage, branch_coverage, method_coverage) \<Rightarrow>
      (case get_int counter ''missed'' of Inl x \<Rightarrow> Inl x | Inr missed \<Rightarrow>
      (case get_int counter ''covered'' of Inl x \<Rightarrow> Inl x | Inr covered \<Rightarrow>
      (case percentage missed covered of Inl x \<Rightarrow> Inl x | Inr p \<Rightarrow>
         if get counter ''type'' = Some ''LINE''
           then Inr (float_round2 p, branch_coverage, method_coverage)
         else if get counter ''type'' = Some ''BRANCH''
           then Inr (line_coverage, float_round2 p, method_coverage)
         else if get counter ''type'' = Some ''METHOD''
           then Inr (line_coverage, branch_coverage, float_round2 p)
         else Inr (line_coverage, branch_coverage, method_coverage)))))"

fun scan_counters ::
  "element list \<Rightarrow> py_float \<times> py_float \<times> py_float
     \<Rightarrow> py_exception + py_float \<times> py_float \<times> py_float" where
  "scan_counters [] cov = Inr cov"
| "scan_counters (counter # cs) cov =
     (case apply_counter cov counter of
        Inl x \<Rightarrow> Inl x
      | Inr cov' \<Rightarrow> scan_counters cs cov')"

text \<open>
  \<^verbatim>\<open>get_quality_dashboard\<close>. \<open>surefire\<close> is \<open>None\<close> when the directory
  \<^verbatim>\<open>target/surefire-reports\<close> does not exist, and otherwise what parsing each of its
  \<^verbatim>\<open>TEST-*.xml\<close> files gives; \<open>jacoco\<close> is \<open>None\<close> when \<^verbatim>\<open>jacoco.xml\<close> does not exist.
  The function has no handler but the two for \<^verbatim>\<open>ET.ParseError\<close>: \<open>Inl\<close> is an exception
  that reaches the caller.
\<close>

definition get_quality_dashboard ::
  "parse_outcome list option \<Rightarrow> parse_outcome option \<Rightarrow> py_exception + dashboard" where
  "get_quality_dashboard surefire jacoco =
     (case (case surefire of
              None \<Rightarrow> Inr (0, 0, 0, 0)
            | Some report_files \<Rightarrow> sum_reports report_files (0, 0, 0, 0)) of
        Inl x \<Rightarrow> Inl x
      | Inr (sum_tests, sum_failures, sum_errors, sum_skipped) \<Rightarrow>
          (let total_passed = sum_tests - (sum_failures + sum_errors + sum_skipped)
           in case (case jacoco of
                      None \<Rightarrow> Inr (Float 0, Float 0, Float 0)
                    | Some ParseError \<Rightarrow> Inr (Float 0, Float 0, Float 0)
                    | Some (Parsed root_elem) \<Rightarrow>
                        scan_counters (findall root_elem ''counter'') (Float 0, Float 0, Float 0)) of
                Inl x \<Rightarrow> Inl x
              | Inr (line_coverage, branch_coverage, method_coverage) \<Rightarrow>
                  Inr \<lparr>test_run_summary =
                         \<lparr>total_tests = sum_tests, passed = total_passed,
                          failures = sum_failures, errors = sum_errors,
                          skipped = sum_skipped\<rparr>,
                       code_coverage_summary =
                         \<lparr>line_coverage_percent = line_coverage,
                          branch_coverage_percent = branch_coverage,
                          method_coverage_percent = method_coverage\<rparr>\<rparr>))"

section \<open>Uncovered lines\<close>

text \<open>The dictionary \<^verbatim>\<open>get_missing_coverage\<close> returns: an \<^verbatim>\<open>error\<close> entry, the
  \<^verbatim>\<open>status\<close> entry, or the mapping from class names to line numbers, kept as the list
  of its items in insertion order.\<close>

datatype coverage_result =
  Cov_error string
| Cov_unexpected py_exception
| Cov_status string
| Cov_missing "(string \<times> int list) list"

text \<open>Lines 427-439: the line number a \<^verbatim>\<open>line\<close> element adds to \<^verbatim>\<open>uncovered_lines\<close>, if
  any. A \<^verbatim>\<open>ValueError\<close> of either conversion is caught and the element is passed over;
  the line number is converted only when the missed instructions are positive.\<close>

definition uncovered_line :: "element \<Rightarrow> int option" where
  "uncovered_line line_elem =
     (case get line_elem ''mi'' of
        None \<Rightarrow> None
      | Some missed_instructions \<Rightarrow>
          (case get line_elem ''nr'' of
             None \<Rightarrow> None
           | Some line_number \<Rightarrow>
               (case py_int missed_instructions of
                  None \<Rightarrow> None
                | Some mi \<Rightarrow> if mi > 0 then py_int line_number else None)))"

definition uncovered_lines :: "element \<Rightarrow> int list" where
  "uncovered_lines class_elem =
     List.map_filter uncovered_line (findall_path class_elem ''sourcefile'' ''line'')"

text \<open>\<^verbatim>\<open>s.replace('/', '.')\<close> and \<^verbatim>\<open>s.split('/')[-1]\<close>.\<close>

definition replace_slash :: "string \<Rightarrow> string" where
  "replace_slash s = map (\<lambda>c. if c = CHR ''/'' then CHR ''.'' else c) s"

definition last_segment :: "string \<Rightarrow> string" where
  "last_segment s = rev (takeWhile (\<lambda>c. c \<noteq> CHR ''/'') (rev s))"

text \<open>Line 443: a missing \<^verbatim>\<open>name\<close> attribute makes the method call on \<^verbatim>\<open>None\<close> raise.\<close>

definition full_class_name :: "string option \<Rightarrow> string option \<Rightarrow> py_exception + string" where
  "full_class_name package_name class_name =
     (case package_name of
        None \<Rightarrow> Inl AttributeError
      | Some p \<Rightarrow>
          (case class_name of
             None \<Rightarrow> Inl AttributeError
           | Some c \<Rightarrow> Inr (replace_slash p @ ''.'' @ last_segment c)))"

text \<open>\<^verbatim>\<open>d[k] = v\<close> on a dictionary kept as its items in insertion order.\<close>

fun dict_set :: "'k \<Rightarrow> 'v \<Rightarrow> ('k \<times> 'v) list \<Rightarrow> ('k \<times> 'v) list" where
  "dict_set k v [] = [(k, v)]"
| "dict_set k v ((k', v') # d) = (if k' = k then (k, v) # d else (k', v') # dict_set k v d)"

text \<open>Lines 419-445, the loop over the classes of one package.\<close>

fun scan_classes ::
  "string option \<Rightarrow> element list \<Rightarrow> (string \<times> int list) list
     \<Rightarrow> py_exception + (string \<times> int list) list" where
  "scan_classes package_name [] missing_coverage = Inr missing_coverage"
| "scan_classes package_name (class_elem # cs) missing_coverage =
     (if uncovered_lines class_elem = [] then scan_classes package_name cs missing_coverage
      else (case full_class_name package_name (get class_elem ''name'') of
              Inl x \<Rightarrow> Inl x
            | Inr full_name \<Rightarrow>
                scan_classes package_name cs
                  (dict_set full_name (sort (remdups (uncovered_lines class_elem)))
                     missing_coverage)))"

text \<open>Lines 417-445, the loop over the packages.\<close>

fun scan_packages ::
  "element list \<Rightarrow> (string \<times> int list) list \<Rightarrow> py_exception + (string \<times> int list) list" where
  "scan_packages [] missing_coverage = Inr missing_coverage"
| "scan_packages (package # ps) missing_coverage =
     (case scan_classes (get package ''name'') (findall package ''class'') missing_coverage of
        Inl x \<Rightarrow> Inl x
      | Inr missing_coverage' \<Rightarrow> scan_packages ps missing_coverage')"

text \<open>\<^verbatim>\<open>get_missing_coverage\<close>; \<open>report\<close> is \<open>None\<close> when the file does not exist.\<close>

definition get_missing_coverage :: "string \<Rightarrow> parse_outcome option \<Rightarrow> coverage_result" where
  "get_missing_coverage jacoco_report_path report =
     (case report of
        None \<Rightarrow> Cov_error (''Report not found at '' @ jacoco_report_path)
      | Some ParseError \<Rightarrow>
          Cov_error ''Failed to parse the JaCoCo XML file. It might be malformed.''
      | Some (Parsed root_elem) \<Rightarrow>
          (case scan_packages (findall root_elem ''package'') [] of
             Inl x \<Rightarrow> Cov_unexpected x
           | Inr missing_coverage \<Rightarrow>
               if missing_coverage = [] then Cov_status ''100% Coverage!''
               else Cov_missing missing_coverage))"

section \<open>Notions used in the statements\<close>

text \<open>The list the two loops of \<^verbatim>\<open>run_pmd_analysis\<close> build for a document in which
  every violation has text: one record per violation, in document order.\<close>

definition violation_record :: "string option \<Rightarrow> element \<Rightarrow> violation" where
  "violation_record file_name v =
     \<lparr>v_file = file_name, v_line = get v ''beginline'', v_rule = get v ''rule'',
      v_priority = get v ''priority'',
      v_description = (case elem_text v of None \<Rightarrow> [] | Some t \<Rightarrow> strip t)\<rparr>"

definition document_violations :: "element \<Rightarrow> violation list" where
  "document_violations root_elem =
     concat (map (\<lambda>file_elem. map (violation_record (get file_elem ''name''))
                               (findall file_elem ''violation''))
               (findall root_elem ''file''))"

text \<open>A report with two violations, the second without text.\<close>

definition pmd_report_two :: element where
  "pmd_report_two =
     Element ''pmd'' [] None
       [Element ''file'' [(''name'', ''A.java'')] None
          [Element ''violation'' [(''beginline'', ''3''), (''rule'', ''UnusedLocal''), (''priority'', ''3'')]
             (Some ''Avoid unused local variables'') [],
           Element ''violation'' [(''beginline'', ''9''), (''rule'', ''EmptyCatch''), (''priority'', ''2'')]
             None []]]"

text \<open>A suite whose four attributes convert to numbers with non-negative failures,
  errors and skips that together do not exceed the tests.\<close>

definition consistent_suite :: "element \<Rightarrow> bool" where
  "consistent_suite suite =
     (case (get_int suite ''tests'', get_int suite ''failures'',
            get_int suite ''errors'', get_int suite ''skipped'') of
        (Inr t, Inr f, Inr e, Inr s) \<Rightarrow> 0 \<le> f \<and> 0 \<le> e \<and> 0 \<le> s \<and> f + e + s \<le> t
      | _ \<Rightarrow> False)"

text \<open>The percentage the dashboard reports for a counter type.\<close>

definition reported_percent :: "dashboard \<Rightarrow> string \<Rightarrow> py_float" where
  "reported_percent d counter_type =
     (if counter_type = ''LINE'' then line_coverage_percent (code_coverage_summary d)
      else if counter_type = ''BRANCH'' then branch_coverage_percent (code_coverage_summary d)
      else method_coverage_percent (code_coverage_summary d))"

definition pick_percent :: "string \<Rightarrow> py_float \<times> py_float \<times> py_float \<Rightarrow> py_float" where
  "pick_percent counter_type cov =
     (case cov of (line_coverage, branch_coverage, method_coverage) \<Rightarrow>
        if counter_type = ''LINE'' then line_coverage
        else if counter_type = ''BRANCH'' then branch_coverage
        else method_coverage)"

text \<open>Example reports.\<close>

definition suite_more_failures_than_tests :: element where
  "suite_more_failures_than_tests =
     Element ''testsuite'' [(''tests'', ''1''), (''failures'', ''2'')] None []"

definition suite_three_tests :: element where
  "suite_three_tests =
     Element ''testsuite'' [(''tests'', ''3''), (''failures'', ''1''), (''skipped'', ''1'')] None []"

definition report_137_23 :: element where
  "report_137_23 =
     Element ''report'' [] None
       [Element ''counter'' [(''type'', ''LINE''), (''missed'', ''137''), (''covered'', ''23'')] None []]"

definition report_one_third :: element where
  "report_one_third =
     Element ''report'' [] None
       [Element ''counter'' [(''type'', ''BRANCH''), (''missed'', ''2''), (''covered'', ''1'')] None []]"

text \<open>The item \<open>(k, ls)\<close> is what the loop stores for a class element with uncovered
  lines: its full name and its line numbers, sorted, each once.\<close>

definition class_item :: "string option \<Rightarrow> element \<Rightarrow> string \<times> int list \<Rightarrow> bool" where
  "class_item package_name class_elem item =
     (full_class_name package_name (get class_elem ''name'') = Inr (fst item) \<and>
      uncovered_lines class_elem \<noteq> [] \<and>
      snd item = sort (remdups (uncovered_lines class_elem)))"

definition item_of_class :: "element list \<Rightarrow> string \<times> int list \<Rightarrow> bool" where
  "item_of_class packages item =
     (\<exists>p \<in> set packages. \<exists>c \<in> set (findall p ''class''). class_item (get p ''name'') c item)"

text \<open>A class element has a line whose \<^verbatim>\<open>mi\<close> attribute is present, numeric and
  positive.\<close>

definition has_missed_line :: "element \<Rightarrow> bool" where
  "has_missed_line class_elem =
     (\<exists>l \<in> set (findall_path class_elem ''sourcefile'' ''line'').
        \<exists>s mi. get l ''mi'' = Some s \<and> py_int s = Some mi \<and> 0 < mi)"

text \<open>An example report: one class with missed lines 7, 3 and 7 again, one line without
  misses and one with a line number that is not a number; a second class without
  misses.\<close>

definition report_foo_bar :: element where
  "report_foo_bar =
     Element ''report'' [] None
       [Element ''package'' [(''name'', ''com/acme'')] None
          [Element ''class'' [(''name'', ''com/acme/Foo'')] None
             [Element ''sourcefile'' [] None
                [Element ''line'' [(''nr'', ''7''), (''mi'', ''2'')] None [],
                 Element ''line'' [(''nr'', ''3''), (''mi'', ''1'')] None [],
                 Element ''line'' [(''nr'', ''7''), (''mi'', ''4'')] None [],
                 Element ''line'' [(''nr'', ''9''), (''mi'', ''0'')] None [],
                 Element ''line'' [(''nr'', ''x''), (''mi'', ''5'')] None []]],
           Element ''class'' [(''name'', ''com/acme/Bar'')] None
             [Element ''sourcefile'' [] None
                [Element ''line'' [(''nr'', ''1''), (''mi'', ''0'')] None []]]]]"

text \<open>A report whose only package has no class.\<close>

definition report_no_class :: element where
  "report_no_class = Element ''report'' [] None [Element ''package'' [(''name'', ''p'')] None []]"

text \<open>An attribute that is missing or converts with \<^verbatim>\<open>int()\<close>.\<close>

definition numeric_or_missing :: "element \<Rightarrow> string \<Rightarrow> bool" where
  "numeric_or_missing e key = (case get e key of None \<Rightarrow> True | Some s \<Rightarrow> py_int s \<noteq> None)"

definition numeric_suite :: "element \<Rightarrow> bool" where
  "numeric_suite suite =
     (numeric_or_missing suite ''tests'' \<and> numeric_or_missing suite ''failures'' \<and>
      numeric_or_missing suite ''errors'' \<and> numeric_or_missing suite ''skipped'')"

text \<open>An attribute that is missing or converts with \<^verbatim>\<open>int()\<close> to a number that is not
  negative.\<close>

definition count_or_missing :: "element \<Rightarrow> string \<Rightarrow> bool" where
  "count_or_missing e key =
     (case get e key of
        None \<Rightarrow> True
      | Some s \<Rightarrow> (case py_int s of None \<Rightarrow> False | Some n \<Rightarrow> 0 \<le> n))"

definition numeric_counter :: "element \<Rightarrow> bool" where
  "numeric_counter counter =
     (count_or_missing counter ''missed'' \<and> count_or_missing counter ''covered'')"

section \<open>Properties of the boundary-value generator\<close>

lemma str_int_bounds:
  "str_int JAVA_INT_MAX = ''2147483647''"
  "str_int JAVA_INT_MIN = ''-2147483648''"
  "str_int (JAVA_INT_MAX + 1) = ''2147483648''"
  "str_int (JAVA_INT_MIN - 1) = ''-2147483649''"
  by code_simp+

lemma set_foldl_dict_add_key:
  "set (foldl dict_add_key d xs) = set d \<union> set xs"
  by (induction xs arbitrary: d) (auto simp: dict_add_key_def)

lemma distinct_foldl_dict_add_key:
  "distinct d \<Longrightarrow> distinct (foldl dict_add_key d xs)"
  by (induction xs arbitrary: d) (auto simp: dict_add_key_def)

lemma first_index_append:
  "first_index (xs @ ys) a =
     (if a \<in> set xs then first_index xs a else length xs + first_index ys a)"
  by (induction xs) (auto simp: first_index_def)

lemma first_index_less: "a \<in> set xs \<Longrightarrow> first_index xs a < length xs"
  by (induction xs) (auto simp: first_index_def)

lemma first_index_Cons:
  "first_index (x # xs) a = (if x = a then 0 else Suc (first_index xs a))"
  by (simp add: first_index_def)

lemma first_index_nth:
  "distinct d \<Longrightarrow> i < length d \<Longrightarrow> first_index d (d ! i) = i"
proof (induction d arbitrary: i)
  case Nil
  then show ?case by simp
next
  case (Cons x d)
  show ?case
  proof (cases i)
    case 0
    then show ?thesis by (simp add: first_index_Cons)
  next
    case (Suc k)
    with Cons.prems have "d ! k \<in> set d" "x \<notin> set d" by auto
    then have "x \<noteq> d ! k" by auto
    with Suc Cons show ?thesis by (simp add: first_index_Cons)
  qed
qed

lemma sorted_wrt_first_index_self:
  assumes "distinct d"
  shows "sorted_wrt (\<lambda>a b. first_index d a < first_index d b) d"
  unfolding sorted_wrt_iff_nth_less
  using assms by (simp add: first_index_nth)

lemma sorted_wrt_foldl_dict_add_key:
  "distinct d \<Longrightarrow>
   sorted_wrt (\<lambda>a b. first_index (d @ xs) a < first_index (d @ xs) b)
     (foldl dict_add_key d xs)"
proof (induction xs arbitrary: d)
  case Nil
  then show ?case by (simp add: sorted_wrt_first_index_self)
next
  case (Cons x xs)
  show ?case
  proof (cases "x \<in> set d")
    case True
    have ih: "sorted_wrt (\<lambda>a b. first_index (d @ xs) a < first_index (d @ xs) b)
                (foldl dict_add_key d xs)"
      using Cons.IH [OF Cons.prems] .
    have mono: "first_index (d @ x # xs) a < first_index (d @ x # xs) b"
      if "first_index (d @ xs) a < first_index (d @ xs) b" for a b
    proof -
      have nx: "c \<notin> set d \<Longrightarrow> x \<noteq> c" for c using True by auto
      show ?thesis
        using that first_index_less [of a d] first_index_less [of b d] nx [of a] nx [of b]
        by (auto simp: first_index_append first_index_Cons split: if_splits)
    qed
    have "sorted_wrt (\<lambda>a b. first_index (d @ x # xs) a < first_index (d @ x # xs) b)
            (foldl dict_add_key d xs)"
      by (rule sorted_wrt_mono_rel [OF _ ih]) (rule mono)
    moreover have "dict_add_key d x = d"
      using True by (simp add: dict_add_key_def)
    ultimately show ?thesis by simp
  next
    case False
    with Cons.prems have "distinct (d @ [x])" by simp
    from Cons.IH [OF this]
    have "sorted_wrt (\<lambda>a b. first_index (d @ x # xs) a < first_index (d @ x # xs) b)
            (foldl dict_add_key (d @ [x]) xs)"
      by simp
    moreover have "dict_add_key d x = d @ [x]"
      using False by (simp add: dict_add_key_def)
    ultimately show ?thesis by simp
  qed
qed

lemma fromkeys_set: "set (fromkeys xs) = set xs"
  by (simp add: fromkeys_def set_foldl_dict_add_key)

lemma fromkeys_distinct: "distinct (fromkeys xs)"
  by (simp add: fromkeys_def distinct_foldl_dict_add_key)

lemma fromkeys_order:
  "i < j \<Longrightarrow> j < length (fromkeys xs) \<Longrightarrow>
   first_index xs (fromkeys xs ! i) < first_index xs (fromkeys xs ! j)"
  using sorted_wrt_foldl_dict_add_key [of "[]" xs]
  by (simp add: fromkeys_def sorted_wrt_iff_nth_less)

lemma extend_values_concat:
  "extend_values vs numbers =
     vs @ concat (map (\<lambda>num. [VInt (num - 1), VInt num, VInt (num + 1)]) numbers)"
  unfolding extend_values_def
  by (induction numbers arbitrary: vs) auto

lemma extend_values_mem:
  "n \<in> set numbers \<Longrightarrow>
   VInt (n - 1) \<in> set (extend_values vs numbers) \<and>
   VInt n \<in> set (extend_values vs numbers) \<and>
   VInt (n + 1) \<in> set (extend_values vs numbers)"
  by (auto simp: extend_values_concat)

lemma startswith_iff: "startswith s p \<longleftrightarrow> (\<exists>post. s = p @ post)"
  by (induction s p rule: startswith.induct) auto

lemma str_in_iff: "str_in sub s \<longleftrightarrow> (\<exists>pre post. s = pre @ sub @ post)"
proof (induction s)
  case Nil
  then show ?case by auto
next
  case (Cons c cs)
  show ?case
  proof
    assume "str_in sub (c # cs)"
    then consider "startswith (c # cs) sub" | "str_in sub cs" by auto
    then show "\<exists>pre post. c # cs = pre @ sub @ post"
    proof cases
      case 1
      then obtain post where "c # cs = sub @ post" by (auto simp: startswith_iff)
      then have "c # cs = [] @ sub @ post" by simp
      then show ?thesis by blast
    next
      case 2
      with Cons.IH obtain pre post where "cs = pre @ sub @ post" by auto
      then have "c # cs = (c # pre) @ sub @ post" by simp
      then show ?thesis by blast
    qed
  next
    assume "\<exists>pre post. c # cs = pre @ sub @ post"
    then obtain pre post where eq: "c # cs = pre @ sub @ post" by auto
    show "str_in sub (c # cs)"
    proof (cases pre)
      case Nil
      with eq have "startswith (c # cs) sub" by (auto simp: startswith_iff)
      then show ?thesis by simp
    next
      case (Cons a pre')
      with eq have "cs = pre' @ sub @ post" by simp
      with Cons.IH have "str_in sub cs" by blast
      then show ?thesis by simp
    qed
  qed
qed

lemma digit_is_word: "is_digit c \<Longrightarrow> is_word_char c"
  by (auto simp: is_digit_def is_word_char_def Let_def)

lemma findall_numbers_at_token:
  assumes "ds \<noteq> []" and "\<forall>c \<in> set ds. is_digit c"
    and "post = [] \<or> \<not> is_word_char (hd post)"
  shows "findall_numbers False (ds @ post) = ds # findall_numbers True post"
proof -
  from assms(1) obtain c cs where ds: "ds = c # cs" by (cases ds) auto
  with assms(2) have c: "is_digit c" and cs: "\<forall>x \<in> set cs. is_digit x" by auto
  have nd: "post = [] \<or> \<not> is_digit (hd post)"
    using assms(3) digit_is_word by blast
  have dw: "dropWhile is_digit (cs @ post) = post"
  proof (cases post)
    case Nil
    with cs show ?thesis by simp
  next
    case (Cons r rest)
    with nd have "\<not> is_digit r" by simp
    with cs Cons show ?thesis by (simp add: dropWhile_append2)
  qed
  have tw: "takeWhile is_digit (cs @ post) = cs"
  proof (cases post)
    case Nil
    with cs show ?thesis by simp
  next
    case (Cons r rest)
    with nd have "\<not> is_digit r" by simp
    with cs Cons show ?thesis by (simp add: takeWhile_append2)
  qed
  show ?thesis
  proof (cases post)
    case Nil
    have d0: "dropWhile is_digit cs = []" and t0: "takeWhile is_digit cs = cs"
      using cs by simp_all
    show ?thesis by (simp add: ds Nil c d0 t0)
  next
    case (Cons r rest)
    with assms(3) have nw: "\<not> is_word_char r" by simp
    have d1: "dropWhile is_digit (cs @ r # rest) = r # rest"
      and t1: "takeWhile is_digit (cs @ r # rest) = cs"
      using dw tw Cons by simp_all
    show ?thesis by (simp add: ds Cons c nw d1 t1)
  qed
qed

lemma findall_numbers_finds_token:
  assumes "ds \<noteq> []" and "\<forall>c \<in> set ds. is_digit c"
    and "post = [] \<or> \<not> is_word_char (hd post)"
    and "if pre = [] then \<not> prev_word else \<not> is_word_char (last pre)"
  shows "ds \<in> set (findall_numbers prev_word (pre @ ds @ post))"
  using assms(4)
proof (induction "length pre" arbitrary: pre prev_word rule: less_induct)
  case less
  show ?case
  proof (cases pre)
    case Nil
    with less.prems have "\<not> prev_word" by simp
    with Nil findall_numbers_at_token [OF assms(1-3)] show ?thesis by simp
  next
    case (Cons c pre')
    have step: "ds \<in> set (findall_numbers (is_word_char c) (pre' @ ds @ post))"
      if "pre' = [] \<longrightarrow> \<not> is_word_char c"
    proof -
      have "if pre' = [] then \<not> is_word_char c else \<not> is_word_char (last pre')"
        using that less.prems Cons by auto
      moreover have "length pre' < length pre" using Cons by simp
      ultimately show ?thesis using less.hyps by blast
    qed
    show ?thesis
    proof (cases "is_digit c \<and> \<not> prev_word")
      case False
      have "pre' = [] \<longrightarrow> \<not> is_word_char c"
        using less.prems Cons by auto
      from step [OF this] False Cons show ?thesis by auto
    next
      case True
      then have wc: "is_word_char c" using digit_is_word by blast
      have ne: "pre' \<noteq> []"
      proof
        assume "pre' = []"
        with less.prems Cons have "\<not> is_word_char c" by simp
        with wc show False by simp
      qed
      with less.prems Cons have lw: "\<not> is_word_char (last pre')" by simp
      then have "\<not> is_digit (last pre')" using digit_is_word by blast
      moreover have "last pre' \<in> set pre'" using ne by simp
      ultimately have ex: "\<exists>x \<in> set pre'. \<not> is_digit x" by blast
      then have dw: "dropWhile is_digit (pre' @ ds @ post) = dropWhile is_digit pre' @ ds @ post"
        by (auto simp: dropWhile_append1)
      from ex have dne: "dropWhile is_digit pre' \<noteq> []"
        by (auto simp: dropWhile_eq_Nil_conv)
      then obtain r p2 where rp: "dropWhile is_digit pre' = r # p2"
        by (cases "dropWhile is_digit pre'") auto
      have last_eq: "last (r # p2) = last pre'"
      proof -
        have "pre' = takeWhile is_digit pre' @ dropWhile is_digit pre'" by simp
        then have "last pre' = last (takeWhile is_digit pre' @ (r # p2))" by (simp add: rp)
        then show ?thesis by simp
      qed
      show ?thesis
      proof (cases "is_word_char r")
        case wr: True
        have "pre' = [] \<longrightarrow> \<not> is_word_char c" using ne by simp
        from step [OF this] True wr Cons dw rp show ?thesis by simp
      next
        case wr: False
        have len: "length (r # p2) < length pre"
        proof -
          have "length (dropWhile is_digit pre') \<le> length pre'" by (rule length_dropWhile_le)
          with rp Cons show ?thesis by simp
        qed
        have cond: "if r # p2 = [] then \<not> True else \<not> is_word_char (last (r # p2))"
          using lw last_eq by simp
        from less.hyps [OF len cond]
        have "ds \<in> set (findall_numbers True ((r # p2) @ ds @ post))" .
        with True wr Cons dw rp show ?thesis by simp
      qed
    qed
  qed
qed

lemma ints_of_short:
  assumes "\<forall>ds \<in> set tokens. int (length ds) \<le> int_max_str_digits"
  shows "\<exists>numbers. ints_of tokens = Inr numbers \<and> map int_of_digits tokens = map Inr numbers"
  using assms
proof (induction tokens)
  case Nil
  then show ?case by simp
next
  case (Cons n ns)
  then have "int (length n) \<le> int_max_str_digits"
    and rest: "\<forall>ds \<in> set ns. int (length ds) \<le> int_max_str_digits"
    by simp_all
  then have "\<exists>v. int_of_digits n = Inr v"
    by (simp add: int_of_digits_def)
  then obtain v where v: "int_of_digits n = Inr v" ..
  from Cons.IH [OF rest] obtain vs where
    vs: "ints_of ns = Inr vs" "map int_of_digits ns = map Inr vs"
    by blast
  have "ints_of (n # ns) = Inr (v # vs) \<and> map int_of_digits (n # ns) = map Inr (v # vs)"
    using v vs by simp
  then show ?case ..
qed

lemma ints_of_long:
  assumes "\<exists>ds \<in> set tokens. \<not> int (length ds) \<le> int_max_str_digits"
  shows "ints_of tokens = Inl ValueError"
  using assms
proof (induction tokens)
  case Nil
  then show ?case by simp
next
  case (Cons n ns)
  show ?case
  proof (cases "int (length n) \<le> int_max_str_digits")
    case False
    then have "int_of_digits n = Inl ValueError"
      by (simp add: int_of_digits_def)
    then show ?thesis by simp
  next
    case True
    then have "\<exists>v. int_of_digits n = Inr v"
      by (simp add: int_of_digits_def)
    then obtain v where v: "int_of_digits n = Inr v" ..
    from True Cons.prems have "\<exists>ds \<in> set ns. \<not> int (length ds) \<le> int_max_str_digits"
      by auto
    from Cons.IH [OF this] v show ?thesis by simp
  qed
qed

lemma per_type_branch:
  assumes "\<not> str_in ''default'' (lower param_name)"
    and "\<not> (param_type = ''String'' \<and>
            (str_in ''toint'' (lower function_name) \<or> str_in ''parse'' (lower function_name)))"
    and "type_values param_type = Inr base"
  shows "generate_bva_test_cases param_name param_type function_name constraints
           = (case constraint_numbers constraints of
                Inl e \<Rightarrow> Inl e
              | Inr numbers \<Rightarrow> Inr (fromkeys (extend_values base numbers)))"
  using assms by (auto simp: generate_bva_test_cases_def)

lemma type_values_not_boolean:
  assumes "param_type \<noteq> ''boolean''"
  shows "\<exists>base. type_values param_type = Inr base"
  using assms by (simp add: type_values_def)

text \<open>
  C9. Whenever the lower-cased parameter name contains \<open>default\<close>, the generator returns
  exactly \<open>[0, 1, -1]\<close>, whatever the type, the function name and the constraints are.
\<close>

theorem bva_default_param:
  assumes "str_in ''default'' (lower param_name)"
  shows "generate_bva_test_cases param_name param_type function_name constraints
         = Inr [VInt 0, VInt 1, VInt (- 1)]"
  using assms by (simp add: generate_bva_test_cases_def)

theorem bva_default_param_witness:
  "str_in ''default'' (lower ''someDefaultValue'') \<and>
   generate_bva_test_cases ''someDefaultValue'' ''int'' ''foo'' ''''
     = Inr [VInt 0, VInt 1, VInt (- 1)]"
proof -
  have h: "str_in ''default'' (lower ''someDefaultValue'')"
    by code_simp
  show ?thesis
    using h bva_default_param [OF h] by blast
qed

text \<open>
  C7. For the type \<open>String\<close>, a function name that contains \<open>toint\<close> or \<open>parse\<close> in any
  letter case, and a parameter name without \<open>default\<close>, the generator returns exactly
  the eleven values for integer parsing: no value, the empty string, one space, \<open>0\<close>,
  \<open>1\<close>, \<open>-1\<close>, the largest and the smallest 32-bit integer, one past each of them, and
  \<open>abc\<close>.
\<close>

theorem bva_string_parsing:
  assumes "param_type = ''String''"
    and "str_in ''toint'' (lower function_name) \<or> str_in ''parse'' (lower function_name)"
    and "\<not> str_in ''default'' (lower param_name)"
  shows "generate_bva_test_cases param_name param_type function_name constraints
         = Inr [VNone, VStr '''', VStr '' '', VStr ''0'', VStr ''1'', VStr ''-1'',
                VStr ''2147483647'', VStr ''-2147483648'',
                VStr ''2147483648'', VStr ''-2147483649'', VStr ''abc'']"
  using assms by (simp add: generate_bva_test_cases_def str_int_bounds)

theorem bva_string_parsing_witness:
  "\<exists>r. generate_bva_test_cases ''input'' ''String'' ''parseToInt'' '''' = Inr r \<and>
       VStr ''2147483648'' \<in> set r \<and> VStr ''abc'' \<in> set r"
proof -
  have h1: "str_in ''toint'' (lower ''parseToInt'') \<or> str_in ''parse'' (lower ''parseToInt'')"
    by code_simp
  have h2: "\<not> str_in ''default'' (lower ''input'')"
    by code_simp
  show ?thesis
    by (simp add: bva_string_parsing [OF refl h1 h2])
qed

text \<open>
  C8, as the claim states it, fails: a run of more than 4300 digits in the constraints
  makes \<^verbatim>\<open>int(n)\<close> raise \<^verbatim>\<open>ValueError\<close> (line 101), which nothing catches, so the
  call returns no sequence at all. Here the constraints are 4301 times the digit 1.
\<close>

theorem bva_long_number_raises:
  "generate_bva_test_cases ''count'' ''int'' ''setCount'' (replicate 4301 (CHR ''1''))
     = Inl ValueError"
proof -
  have lc: "lower_char (CHR ''1'') = CHR ''1''"
    by code_simp
  have low: "lower (replicate 4301 (CHR ''1'')) = replicate 4301 (CHR ''1'')"
    by (simp add: lower_def lc)
  have dg: "is_digit (CHR ''1'')"
    by code_simp
  have "findall_numbers False (replicate 4301 (CHR ''1'') @ [])
          = replicate 4301 (CHR ''1'') # findall_numbers True []"
    by (rule findall_numbers_at_token) (simp_all add: dg)
  then have tok: "findall_numbers False (replicate 4301 (CHR ''1'')) = [replicate 4301 (CHR ''1'')]"
    by simp
  have cn: "constraint_numbers (replicate 4301 (CHR ''1'')) = Inl ValueError"
    by (simp add: constraint_numbers_def low tok int_of_digits_def int_max_str_digits_def)
  have h1: "\<not> str_in ''default'' (lower ''count'')"
    by code_simp
  have tv: "type_values ''int''
              = Inr [VInt 0, VInt 1, VInt (- 1), VInt JAVA_INT_MAX, VInt JAVA_INT_MIN]"
    by (simp add: type_values_def)
  show ?thesis
    by (simp add: per_type_branch [OF h1 _ tv] cn)
qed

text \<open>
  C8, amended. In the per-type branch (no \<open>default\<close> in the parameter name, not the
  string-parsing case, a type other than \<open>boolean\<close>), when no whole-number token of the
  lower-cased constraints has more than 4300 digits, the call returns: every token
  converts to a number, the working list is the type's base values followed by
  \<open>n - 1, n, n + 1\<close> for every number \<open>n\<close> in the order of the tokens, and the result has
  the working list's elements, each once, in the order of their first occurrences. For
  \<open>('count', 'int', 'setCount', 'max 10 items')\<close> it is the integer base set followed by
  9, 10, 11.
\<close>

theorem bva_working_set:
  assumes "\<not> str_in ''default'' (lower param_name)"
    and "\<not> (param_type = ''String'' \<and>
            (str_in ''toint'' (lower function_name) \<or> str_in ''parse'' (lower function_name)))"
    and "param_type \<noteq> ''boolean''"
    and "\<forall>ds \<in> set (findall_numbers False (lower constraints)).
           int (length ds) \<le> int_max_str_digits"
  shows "\<exists>base numbers ws r.
           type_values param_type = Inr base \<and>
           constraint_numbers constraints = Inr numbers \<and>
           map int_of_digits (findall_numbers False (lower constraints)) = map Inr numbers \<and>
           ws = extend_values base numbers \<and>
           (\<forall>n \<in> set numbers.
              VInt (n - 1) \<in> set ws \<and> VInt n \<in> set ws \<and> VInt (n + 1) \<in> set ws) \<and>
           generate_bva_test_cases param_name param_type function_name constraints = Inr r \<and>
           set r = set ws \<and>
           distinct r \<and>
           (\<forall>i j. i < j \<and> j < length r
              \<longrightarrow> first_index ws (r ! i) < first_index ws (r ! j)) \<and>
           generate_bva_test_cases ''count'' ''int'' ''setCount'' ''max 10 items''
             = Inr [VInt 0, VInt 1, VInt (- 1), VInt 2147483647, VInt (- 2147483648),
                    VInt 9, VInt 10, VInt 11]"
proof -
  from type_values_not_boolean [OF assms(3)]
  obtain base where base: "type_values param_type = Inr base" ..
  from ints_of_short [OF assms(4)] obtain numbers where
    cn: "constraint_numbers constraints = Inr numbers" and
    toks: "map int_of_digits (findall_numbers False (lower constraints)) = map Inr numbers"
    unfolding constraint_numbers_def by blast
  define ws where "ws = extend_values base numbers"
  define r where "r = fromkeys ws"
  have res: "generate_bva_test_cases param_name param_type function_name constraints = Inr r"
    by (simp add: per_type_branch [OF assms(1,2) base] cn r_def ws_def)
  have mem: "\<forall>n \<in> set numbers.
              VInt (n - 1) \<in> set ws \<and> VInt n \<in> set ws \<and> VInt (n + 1) \<in> set ws"
    unfolding ws_def using extend_values_mem by blast
  have ex: "generate_bva_test_cases ''count'' ''int'' ''setCount'' ''max 10 items''
             = Inr [VInt 0, VInt 1, VInt (- 1), VInt 2147483647, VInt (- 2147483648),
                    VInt 9, VInt 10, VInt 11]"
    by code_simp
  have s: "set r = set ws"
    by (simp add: r_def fromkeys_set)
  have d: "distinct r"
    by (simp add: r_def fromkeys_distinct)
  have ord: "\<forall>i j. i < j \<and> j < length r
              \<longrightarrow> first_index ws (r ! i) < first_index ws (r ! j)"
    unfolding r_def using fromkeys_order by blast
  from base cn toks ws_def mem res s d ord ex show ?thesis
    by blast
qed

theorem bva_working_set_witness:
  "\<exists>r. generate_bva_test_cases ''n'' ''long'' ''setN'' ''From 0 to 2'' = Inr r \<and>
       set r = set [VInt 0, VInt 1, VInt (- 1), VInt 2147483647, VInt (- 2147483648),
                    VInt (- 1), VInt 0, VInt 1, VInt 1, VInt 2, VInt 3] \<and>
       distinct r"
proof -
  have h1: "\<not> str_in ''default'' (lower ''n'')"
    by code_simp
  have h2: "\<not> (''long'' = ''String'' \<and>
            (str_in ''toint'' (lower ''setN'') \<or> str_in ''parse'' (lower ''setN'')))"
    by simp
  have h3: "''long'' \<noteq> ''boolean''"
    by simp
  have h4: "\<forall>ds \<in> set (findall_numbers False (lower ''From 0 to 2'')).
              int (length ds) \<le> int_max_str_digits"
    by code_simp
  have tv: "type_values ''long''
              = Inr [VInt 0, VInt 1, VInt (- 1), VInt 2147483647, VInt (- 2147483648)]"
    by code_simp
  have cn: "constraint_numbers ''From 0 to 2'' = Inr [0, 2]"
    by code_simp
  have ev: "extend_values [VInt 0, VInt 1, VInt (- 1), VInt 2147483647, VInt (- 2147483648)] [0, 2]
              = [VInt 0, VInt 1, VInt (- 1), VInt 2147483647, VInt (- 2147483648),
                 VInt (- 1), VInt 0, VInt 1, VInt 1, VInt 2, VInt 3]"
    by (simp add: extend_values_def)
  from bva_working_set [OF h1 h2 h3 h4]
  obtain base numbers ws r where
    b: "type_values ''long'' = Inr base" and
    n: "constraint_numbers ''From 0 to 2'' = Inr numbers" and
    w: "ws = extend_values base numbers" and
    g: "generate_bva_test_cases ''n'' ''long'' ''setN'' ''From 0 to 2'' = Inr r" and
    s: "set r = set ws" and
    d: "distinct r"
    by blast
  from b tv have "base = [VInt 0, VInt 1, VInt (- 1), VInt 2147483647, VInt (- 2147483648)]"
    by simp
  moreover from n cn have "numbers = [0, 2]"
    by simp
  ultimately have "ws = [VInt 0, VInt 1, VInt (- 1), VInt 2147483647, VInt (- 2147483648),
                 VInt (- 1), VInt 0, VInt 1, VInt 1, VInt 2, VInt 3]"
    using w ev by simp
  with s have "set r = set [VInt 0, VInt 1, VInt (- 1), VInt 2147483647, VInt (- 2147483648),
                 VInt (- 1), VInt 0, VInt 1, VInt 1, VInt 2, VInt 3]"
    by (simp only:)
  with g d show ?thesis
    by blast
qed

section \<open>Properties of the static-analysis tool\<close>

lemma add_violations_no_text:
  "\<exists>v \<in> set vs. elem_text v = None \<Longrightarrow> add_violations file_name vs acc = Inl AttributeError"
  by (induction vs arbitrary: acc) (auto split: option.splits)

lemma add_violations_all_text:
  "\<forall>v \<in> set vs. elem_text v \<noteq> None \<Longrightarrow>
   add_violations file_name vs acc = Inr (acc @ map (violation_record file_name) vs)"
  by (induction vs arbitrary: acc) (auto simp: violation_record_def split: option.splits)

lemma add_violations_error:
  "add_violations file_name vs acc = Inl e \<Longrightarrow> e = AttributeError"
  by (induction vs arbitrary: acc) (auto split: option.splits)

lemma scan_files_no_text:
  "\<exists>f \<in> set fs. \<exists>v \<in> set (findall f ''violation''). elem_text v = None \<Longrightarrow>
   scan_files fs acc = Inl AttributeError"
proof (induction fs arbitrary: acc)
  case Nil
  then show ?case by simp
next
  case (Cons f fs)
  show ?case
  proof (cases "add_violations (get f ''name'') (findall f ''violation'') acc")
    case (Inl e)
    then show ?thesis using add_violations_error [OF Inl] by simp
  next
    case (Inr acc')
    have "\<not> (\<exists>v \<in> set (findall f ''violation''). elem_text v = None)"
    proof
      assume "\<exists>v \<in> set (findall f ''violation''). elem_text v = None"
      from add_violations_no_text [OF this, of "get f ''name''" acc] Inr show False by simp
    qed
    with Cons.prems have "\<exists>f \<in> set fs. \<exists>v \<in> set (findall f ''violation''). elem_text v = None"
      by auto
    from Cons.IH [OF this] Inr show ?thesis by simp
  qed
qed

lemma scan_files_all_text:
  "\<forall>f \<in> set fs. \<forall>v \<in> set (findall f ''violation''). elem_text v \<noteq> None \<Longrightarrow>
   scan_files fs acc =
     Inr (acc @ concat (map (\<lambda>f. map (violation_record (get f ''name'')) (findall f ''violation'')) fs))"
  by (induction fs arbitrary: acc) (auto simp: add_violations_all_text)

text \<open>
  C10. A report in which some violation element has no text content makes
  \<^verbatim>\<open>run_pmd_analysis\<close> return the entry for an unexpected exception (the
  \<^verbatim>\<open>AttributeError\<close> of calling \<^verbatim>\<open>strip\<close> on \<^verbatim>\<open>None\<close>): a result that holds neither a
  count nor any violation of the document.
\<close>

theorem pmd_violation_without_text:
  assumes "file_elem \<in> set (findall root_elem ''file'')"
    and "v \<in> set (findall file_elem ''violation'')"
    and "elem_text v = None"
  shows "run_pmd_analysis None (Some (Parsed root_elem)) = Pmd_unexpected AttributeError"
proof -
  have "\<exists>f \<in> set (findall root_elem ''file''). \<exists>v \<in> set (findall f ''violation''). elem_text v = None"
    using assms by blast
  then have "scan_files (findall root_elem ''file'') [] = Inl AttributeError"
    by (rule scan_files_no_text)
  then show ?thesis by (simp add: run_pmd_analysis_def)
qed

theorem pmd_violation_without_text_witness:
  "run_pmd_analysis None (Some (Parsed pmd_report_two)) = Pmd_unexpected AttributeError"
proof -
  let ?v = "Element ''violation'' [(''beginline'', ''9''), (''rule'', ''EmptyCatch''), (''priority'', ''2'')]
             None []"
  let ?f = "Element ''file'' [(''name'', ''A.java'')] None
          [Element ''violation'' [(''beginline'', ''3''), (''rule'', ''UnusedLocal''), (''priority'', ''3'')]
             (Some ''Avoid unused local variables'') [], ?v]"
  have h1: "?f \<in> set (findall pmd_report_two ''file'')"
    by (simp add: pmd_report_two_def findall_def)
  have h2: "?v \<in> set (findall ?f ''violation'')"
    by (simp add: findall_def)
  have h3: "elem_text ?v = None"
    by simp
  show ?thesis
    by (rule pmd_violation_without_text [OF h1 h2 h3])
qed

text \<open>
  C6. At a report with one violation, whose element has no text, the tool returns the
  entry for an unexpected exception, where the claim asks for a status with the count 1
  and the violation.
\<close>

theorem pmd_single_violation_without_text:
  "run_pmd_analysis None (Some (Parsed (Element ''pmd'' [] None
     [Element ''file'' [(''name'', ''A.java'')] None
        [Element ''violation'' [(''beginline'', ''1''), (''rule'', ''R''), (''priority'', ''3'')]
           None []]])))
   = Pmd_unexpected AttributeError"
  by code_simp

text \<open>
  When every violation element of the report has text, the tool returns the
  no-violations status for an empty document, and otherwise the status with the number of
  all violations together with the first 20 of them in document order.
\<close>

theorem pmd_count_and_first_20:
  assumes "\<forall>f \<in> set (findall root_elem ''file'').
             \<forall>v \<in> set (findall f ''violation''). elem_text v \<noteq> None"
  shows "run_pmd_analysis None (Some (Parsed root_elem)) =
           (if document_violations root_elem = []
            then Pmd_status ''PMD analysis passed. No violations found.''
            else Pmd_found
                   (''PMD analysis found '' @ str_int (int (length (document_violations root_elem)))
                      @ '' total violations.'')
                   (take 20 (document_violations root_elem)))"
  using scan_files_all_text [OF assms, of "[]"]
  by (simp add: run_pmd_analysis_def document_violations_def)

theorem pmd_count_and_first_20_witness:
  "run_pmd_analysis None (Some (Parsed (Element ''pmd'' [] None
     [Element ''file'' [(''name'', ''A.java'')] None
        [Element ''violation'' [(''beginline'', ''1''), (''rule'', ''R''), (''priority'', ''3'')]
           (Some '' msg  '') []]])))
   = Pmd_found ''PMD analysis found 1 total violations.''
       [\<lparr>v_file = Some ''A.java'', v_line = Some ''1'', v_rule = Some ''R'', v_priority = Some ''3'',
         v_description = ''msg''\<rparr>]"
proof -
  let ?r = "Element ''pmd'' [] None
     [Element ''file'' [(''name'', ''A.java'')] None
        [Element ''violation'' [(''beginline'', ''1''), (''rule'', ''R''), (''priority'', ''3'')]
           (Some '' msg  '') []]]"
  have h: "\<forall>f \<in> set (findall ?r ''file''). \<forall>v \<in> set (findall f ''violation''). elem_text v \<noteq> None"
    by (simp add: findall_def)
  have dv: "document_violations ?r =
       [\<lparr>v_file = Some ''A.java'', v_line = Some ''1'', v_rule = Some ''R'', v_priority = Some ''3'',
         v_description = ''msg''\<rparr>]"
    by code_simp
  have s: "str_int 1 = ''1''"
    by code_simp
  show ?thesis
    using pmd_count_and_first_20 [OF h] by (simp add: dv s)
qed

section \<open>Properties of the quality dashboard\<close>

lemma sum_reports_nonneg:
  assumes "sum_reports files (t, f, e, s) = Inr (t', f', e', s')"
    and "\<forall>suite. Parsed suite \<in> set files \<longrightarrow> consistent_suite suite"
    and "0 \<le> f" "0 \<le> e" "0 \<le> s" "f + e + s \<le> t"
  shows "0 \<le> f' \<and> 0 \<le> e' \<and> 0 \<le> s' \<and> f' + e' + s' \<le> t'"
  using assms
proof (induction files arbitrary: t f e s)
  case Nil
  then show ?case by simp
next
  case (Cons r files)
  show ?case
  proof (cases r)
    case ParseError
    with Cons.prems have "sum_reports files (t, f, e, s) = Inr (t', f', e', s')"
      and "\<forall>suite. Parsed suite \<in> set files \<longrightarrow> consistent_suite suite"
      by auto
    from Cons.IH [OF this Cons.prems(3-6)] show ?thesis .
  next
    case (Parsed suite)
    with Cons.prems(2) have c: "consistent_suite suite" by simp
    then obtain a b c d where g:
      "get_int suite ''tests'' = Inr a" "get_int suite ''failures'' = Inr b"
      "get_int suite ''errors'' = Inr c" "get_int suite ''skipped'' = Inr d"
      and n: "0 \<le> b" "0 \<le> c" "0 \<le> d" "b + c + d \<le> a"
      by (auto simp: consistent_suite_def split: sum.splits)
    have step: "add_suite (t, f, e, s) suite = Inr (t + a, f + b, e + c, s + d)"
      by (simp add: add_suite_def g)
    with Cons.prems(1) Parsed
    have 1: "sum_reports files (t + a, f + b, e + c, s + d) = Inr (t', f', e', s')"
      by simp
    have 2: "\<forall>suite. Parsed suite \<in> set files \<longrightarrow> consistent_suite suite"
      using Cons.prems(2) by simp
    show ?thesis
      by (rule Cons.IH [OF 1 2]) (use n Cons.prems(3-6) in auto)
  qed
qed

text \<open>
  C3. Whenever \<^verbatim>\<open>get_quality_dashboard\<close> returns a dashboard, its test summary satisfies
  \<open>passed + failures + errors + skipped = total_tests\<close>.
\<close>

theorem summary_counts_add_up:
  assumes "get_quality_dashboard surefire jacoco = Inr d"
  shows "passed (test_run_summary d) + failures (test_run_summary d)
           + errors (test_run_summary d) + skipped (test_run_summary d)
         = total_tests (test_run_summary d)"
  using assms
  by (auto simp: get_quality_dashboard_def Let_def split: sum.splits prod.splits)

theorem summary_counts_add_up_witness:
  "\<exists>d. get_quality_dashboard (Some [Parsed suite_three_tests, ParseError]) None = Inr d \<and>
       total_tests (test_run_summary d) = 3 \<and>
       passed (test_run_summary d) + failures (test_run_summary d)
           + errors (test_run_summary d) + skipped (test_run_summary d) = 3"
proof -
  have "get_quality_dashboard (Some [Parsed suite_three_tests, ParseError]) None
          = Inr \<lparr>test_run_summary =
                   \<lparr>total_tests = 3, passed = 1, failures = 1, errors = 0, skipped = 1\<rparr>,
                 code_coverage_summary =
                   \<lparr>line_coverage_percent = Float 0, branch_coverage_percent = Float 0,
                    method_coverage_percent = Float 0\<rparr>\<rparr>"
    by code_simp
  then obtain d where d: "get_quality_dashboard (Some [Parsed suite_three_tests, ParseError]) None = Inr d"
    and t: "total_tests (test_run_summary d) = 3"
    by simp
  from summary_counts_add_up [OF d] t d show ?thesis by simp
qed

text \<open>
  C1, as the code has it. The claim's clamping does not exist: one suite with
  \<open>tests = 1\<close> and \<open>failures = 2\<close> gives \<open>passed = -1\<close>.
\<close>

theorem summary_not_clamped:
  "\<exists>d. get_quality_dashboard (Some [Parsed suite_more_failures_than_tests]) None = Inr d \<and>
       passed (test_run_summary d) < 0"
proof -
  have "get_quality_dashboard (Some [Parsed suite_more_failures_than_tests]) None
     = Inr \<lparr>test_run_summary =
              \<lparr>total_tests = 1, passed = - 1, failures = 2, errors = 0, skipped = 0\<rparr>,
            code_coverage_summary =
              \<lparr>line_coverage_percent = Float 0, branch_coverage_percent = Float 0,
               method_coverage_percent = Float 0\<rparr>\<rparr>"
    by code_simp
  then show ?thesis by simp
qed

text \<open>
  C1, amended. Whenever a dashboard is returned, \<open>passed\<close> is
  \<open>total_tests - (failures + errors + skipped)\<close> with no clamping, so it is negative
  exactly when the three exceed the total; and all five counts are non-negative when
  every parsed suite has non-negative failures, errors and skips that together do not
  exceed its tests.
\<close>

theorem summary_invariant_unclamped:
  assumes "get_quality_dashboard surefire jacoco = Inr d"
  shows "passed (test_run_summary d)
           = total_tests (test_run_summary d)
             - (failures (test_run_summary d) + errors (test_run_summary d)
                + skipped (test_run_summary d)) \<and>
         (passed (test_run_summary d) < 0 \<longleftrightarrow>
            total_tests (test_run_summary d)
              < failures (test_run_summary d) + errors (test_run_summary d)
                + skipped (test_run_summary d)) \<and>
         ((\<forall>files \<in> set_option surefire. \<forall>suite. Parsed suite \<in> set files \<longrightarrow> consistent_suite suite)
            \<longrightarrow> 0 \<le> total_tests (test_run_summary d) \<and> 0 \<le> passed (test_run_summary d) \<and>
                0 \<le> failures (test_run_summary d) \<and> 0 \<le> errors (test_run_summary d) \<and>
                0 \<le> skipped (test_run_summary d))"
proof -
  obtain t f e s where tot:
    "(case surefire of None \<Rightarrow> Inr (0, 0, 0, 0)
      | Some report_files \<Rightarrow> sum_reports report_files (0, 0, 0, 0)) = Inr (t, f, e, s)"
    using assms by (auto simp: get_quality_dashboard_def split: sum.splits)
  have fields: "total_tests (test_run_summary d) = t" "failures (test_run_summary d) = f"
    "errors (test_run_summary d) = e" "skipped (test_run_summary d) = s"
    "passed (test_run_summary d) = t - (f + e + s)"
    using assms tot
    by (auto simp: get_quality_dashboard_def Let_def split: sum.splits prod.splits)
  have nonneg: "0 \<le> f \<and> 0 \<le> e \<and> 0 \<le> s \<and> f + e + s \<le> t"
    if ok: "\<forall>files \<in> set_option surefire. \<forall>suite. Parsed suite \<in> set files \<longrightarrow> consistent_suite suite"
  proof (cases surefire)
    case None
    with tot show ?thesis by simp
  next
    case (Some files)
    with tot have 1: "sum_reports files (0, 0, 0, 0) = Inr (t, f, e, s)" by simp
    from ok Some have 2: "\<forall>suite. Parsed suite \<in> set files \<longrightarrow> consistent_suite suite" by simp
    show ?thesis by (rule sum_reports_nonneg [OF 1 2]) simp_all
  qed
  show ?thesis
    using nonneg by (auto simp: fields)
qed

theorem summary_invariant_unclamped_witness:
  "\<exists>d. get_quality_dashboard (Some [Parsed suite_three_tests, ParseError]) None = Inr d \<and>
       passed (test_run_summary d) = 1 \<and> 0 \<le> passed (test_run_summary d)"
proof -
  have "get_quality_dashboard (Some [Parsed suite_three_tests, ParseError]) None
          = Inr \<lparr>test_run_summary =
                   \<lparr>total_tests = 3, passed = 1, failures = 1, errors = 0, skipped = 1\<rparr>,
                 code_coverage_summary =
                   \<lparr>line_coverage_percent = Float 0, branch_coverage_percent = Float 0,
                    method_coverage_percent = Float 0\<rparr>\<rparr>"
    by code_simp
  then obtain d where d: "get_quality_dashboard (Some [Parsed suite_three_tests, ParseError]) None = Inr d"
    and t: "total_tests (test_run_summary d) = 3" "failures (test_run_summary d) = 1"
      "errors (test_run_summary d) = 0" "skipped (test_run_summary d) = 1"
    by simp
  have c: "consistent_suite suite_three_tests"
    by code_simp
  have ok: "\<forall>files \<in> set_option (Some [Parsed suite_three_tests, ParseError]).
              \<forall>suite. Parsed suite \<in> set files \<longrightarrow> consistent_suite suite"
    using c by simp
  from summary_invariant_unclamped [OF d] ok t d show ?thesis by simp
qed

text \<open>
  C2. A suite whose \<^verbatim>\<open>tests\<close> attribute is not a number makes \<^verbatim>\<open>get_quality_dashboard\<close>
  raise \<^verbatim>\<open>ValueError\<close>: the value is neither defaulted nor skipped, and no result is
  returned.
\<close>

theorem dashboard_raises_on_non_numeric_attribute:
  "get_quality_dashboard
     (Some [Parsed (Element ''testsuite'' [(''tests'', ''abc'')] None [])]) None
   = Inl ValueError"
  by code_simp

section \<open>Properties of the float operations\<close>

lemma round_half_even_diff: "\<bar>of_int (round_half_even x) - x\<bar> \<le> 1 / 2"
proof -
  have "of_int \<lfloor>x\<rfloor> \<le> x" "x < of_int \<lfloor>x\<rfloor> + 1"
    by linarith+
  then show ?thesis
    by (auto simp: round_half_even_def Let_def)
qed

lemma round_half_even_nonneg:
  assumes "0 \<le> x"
  shows "0 \<le> round_half_even x"
proof -
  from assms have "0 \<le> \<lfloor>x\<rfloor>" by simp
  then show ?thesis
    by (auto simp: round_half_even_def Let_def)
qed

lemma round_half_even_le:
  assumes "x \<le> of_int n"
  shows "round_half_even x \<le> n"
proof -
  have fl: "\<lfloor>x\<rfloor> \<le> n" using assms by (simp add: floor_le_iff)
  have up: "\<lfloor>x\<rfloor> + 1 \<le> n" if "1 / 2 \<le> x - of_int \<lfloor>x\<rfloor>"
  proof -
    from that assms have "(of_int \<lfloor>x\<rfloor> :: rat) < of_int n" by linarith
    then have "\<lfloor>x\<rfloor> < n" by (simp only: of_int_less_iff)
    then show ?thesis by simp
  qed
  show ?thesis
    using fl up by (auto simp: round_half_even_def Let_def)
qed

lemma double_overflow_eq: "double_overflow = 2 powi 1024"
proof -
  have "((2 :: rat) ^ 32) ^ 32 = 2 ^ (32 * 32)"
    by (simp only: power_mult)
  then show ?thesis
    by (simp add: double_overflow_def)
qed

lemma of_int_bitlen_bounds:
  assumes "0 < p"
  shows "(2 :: rat) powi (bitlen p - 1) \<le> of_int p \<and> (of_int p :: rat) < 2 powi bitlen p"
proof -
  from bitlen_bounds [OF assms]
  have lo: "2 ^ nat (bitlen p - 1) \<le> p" and hi: "p < 2 ^ nat (bitlen p)"
    by simp_all
  have b1: "1 \<le> bitlen p"
  proof (rule ccontr)
    assume "\<not> 1 \<le> bitlen p"
    with bitlen_nonneg [of p] have "bitlen p = 0" by simp
    with hi assms show False by simp
  qed
  from lo have "(of_int (2 ^ nat (bitlen p - 1)) :: rat) \<le> of_int p"
    by (simp only: of_int_le_iff)
  then have 1: "(2 :: rat) powi (bitlen p - 1) \<le> of_int p"
    using b1 by (simp add: power_int_def)
  from hi have "(of_int p :: rat) < of_int (2 ^ nat (bitlen p))"
    by (simp only: of_int_less_iff)
  then have 2: "(of_int p :: rat) < 2 powi bitlen p"
    using b1 by (simp add: power_int_def)
  from 1 2 show ?thesis ..
qed

lemma binade_bounds:
  assumes "x \<noteq> 0"
  shows "2 powi binade x \<le> \<bar>x\<bar> \<and> \<bar>x\<bar> < 2 powi (binade x + 1)"
proof -
  obtain p q where pq: "quotient_of \<bar>x\<bar> = (p, q)"
    by (cases "quotient_of \<bar>x\<bar>")
  have q: "0 < q" by (rule quotient_of_denom_pos [OF pq])
  have x: "\<bar>x\<bar> = of_int p / of_int q" by (rule quotient_of_div [OF pq])
  have "0 < \<bar>x\<bar>" using assms by simp
  with x q have p: "0 < p" by (simp add: zero_less_divide_iff)
  note bp = of_int_bitlen_bounds [OF p]
  note bq = of_int_bitlen_bounds [OF q]
  have P: "(0 :: rat) < of_int p" and Q: "(0 :: rat) < of_int q"
    using p q by simp_all
  define e0 where "e0 = bitlen p - bitlen q"
  have "(of_int p :: rat) / of_int q < 2 powi bitlen p / 2 powi (bitlen q - 1)"
    by (rule frac_less) (use P bp bq in simp_all)
  also have "(2 :: rat) powi bitlen p / 2 powi (bitlen q - 1) = 2 powi (bitlen p - (bitlen q - 1))"
    by (simp add: power_int_diff)
  finally have upper: "\<bar>x\<bar> < 2 powi (e0 + 1)"
    by (simp add: x e0_def algebra_simps)
  have "(2 :: rat) powi (bitlen p - 1) / 2 powi bitlen q \<le> of_int p / of_int q"
    by (rule frac_le) (use P Q bp bq in simp_all)
  moreover have "(2 :: rat) powi (bitlen p - 1) / 2 powi bitlen q = 2 powi (bitlen p - 1 - bitlen q)"
    by (simp add: power_int_diff)
  ultimately have lower: "2 powi (e0 - 1) \<le> \<bar>x\<bar>"
    by (simp add: x e0_def algebra_simps)
  have b: "binade x = (if 2 powi e0 \<le> \<bar>x\<bar> then e0 else e0 - 1)"
    by (simp add: binade_def pq e0_def Let_def)
  show ?thesis
  proof (cases "2 powi e0 \<le> \<bar>x\<bar>")
    case True
    with b upper show ?thesis by simp
  next
    case False
    with b lower show ?thesis by simp
  qed
qed

lemma binade_le:
  assumes "x \<noteq> 0" and "\<bar>x\<bar> < 2 powi (E + 1)"
  shows "binade x \<le> E"
proof (rule ccontr)
  assume "\<not> binade x \<le> E"
  then have "E + 1 \<le> binade x" by simp
  then have "(2 :: rat) powi (E + 1) \<le> 2 powi binade x"
    by (rule power_int_increasing) simp
  with binade_bounds [OF assms(1)] assms(2) show False by simp
qed

lemma ulp_pos: "0 < ulp x"
  by (simp add: ulp_def)

lemma ulp_le:
  assumes "x \<noteq> 0" and "\<bar>x\<bar> < 2 powi (E + 1)" and "- 1074 \<le> E - 52"
  shows "ulp x \<le> 2 powi (E - 52)"
proof -
  from binade_le [OF assms(1,2)] assms(3) have "max (binade x - 52) (- 1074) \<le> E - 52"
    by simp
  then show ?thesis
    unfolding ulp_def by (rule power_int_increasing) simp
qed

lemma nearest_double_error: "\<bar>nearest_double x - x\<bar> \<le> ulp x / 2"
proof (cases "x = 0")
  case True
  with ulp_pos [of x] show ?thesis by (simp add: nearest_double_def)
next
  case False
  have u: "0 < ulp x" by (rule ulp_pos)
  have "nearest_double x - x = (of_int (round_half_even (x / ulp x)) - x / ulp x) * ulp x"
    using False u by (simp add: nearest_double_def algebra_simps)
  then have "\<bar>nearest_double x - x\<bar> = \<bar>of_int (round_half_even (x / ulp x)) - x / ulp x\<bar> * ulp x"
    using u by (simp add: abs_mult)
  also have "\<dots> \<le> (1 / 2) * ulp x"
    by (rule mult_right_mono [OF round_half_even_diff]) (use u in simp)
  finally show ?thesis by simp
qed

lemma nearest_double_nonneg:
  assumes "0 \<le> x"
  shows "0 \<le> nearest_double x"
proof (cases "x = 0")
  case True
  then show ?thesis by (simp add: nearest_double_def)
next
  case False
  have u: "0 < ulp x" by (rule ulp_pos)
  with assms have "0 \<le> x / ulp x" by simp
  then have "0 \<le> round_half_even (x / ulp x)" by (rule round_half_even_nonneg)
  with u False show ?thesis by (simp add: nearest_double_def)
qed

lemma nearest_double_le:
  assumes "0 < x" and "x \<le> of_int m * 2 powi k"
    and "binade x - 52 \<le> k" and "- 1074 \<le> k"
  shows "nearest_double x \<le> of_int m * 2 powi k"
proof -
  define j where "j = max (binade x - 52) (- 1074)"
  have jk: "j \<le> k" using assms(3,4) by (simp add: j_def)
  have u: "ulp x = 2 powi j" by (simp add: ulp_def j_def)
  have up: "(0 :: rat) < 2 powi j" by simp
  have split: "(2 :: rat) powi k = 2 powi (k - j) * 2 powi j"
    by (simp add: power_int_diff)
  have nn: "(2 :: rat) powi (k - j) = of_int (2 ^ nat (k - j))"
    using jk by (simp add: power_int_def)
  have "x / 2 powi j \<le> of_int m * 2 powi k / 2 powi j"
    using assms(2) up by (simp add: divide_right_mono)
  also have "of_int m * 2 powi k / 2 powi j = (of_int m :: rat) * 2 powi (k - j)"
    by (simp add: split)
  also have "\<dots> = of_int (m * 2 ^ nat (k - j))"
    by (simp add: nn)
  finally have "round_half_even (x / 2 powi j) \<le> m * 2 ^ nat (k - j)"
    by (rule round_half_even_le)
  then have "(of_int (round_half_even (x / 2 powi j)) :: rat) \<le> of_int (m * 2 ^ nat (k - j))"
    by (simp only: of_int_le_iff)
  then have "of_int (round_half_even (x / 2 powi j)) * 2 powi j
               \<le> (of_int (m * 2 ^ nat (k - j)) :: rat) * 2 powi j"
    using up by (simp only: mult_le_cancel_right_pos)
  also have "(of_int (m * 2 ^ nat (k - j)) :: rat) * 2 powi j = of_int m * 2 powi k"
    using nn by (simp add: split)
  finally show ?thesis
    using assms(1) by (simp add: nearest_double_def u)
qed

lemma nearest_double_unit:
  assumes "0 \<le> x" and "x \<le> 1"
  shows "0 \<le> nearest_double x \<and> nearest_double x \<le> 1 \<and> \<bar>nearest_double x - x\<bar> \<le> 2 powi (- 53)"
proof (cases "x = 0")
  case True
  then show ?thesis by (simp add: nearest_double_def)
next
  case False
  with assms have pos: "0 < x" by simp
  have lt: "\<bar>x\<bar> < 2 powi (0 + 1)" using assms by simp
  have b: "binade x \<le> 0" by (rule binade_le [OF False lt])
  have "nearest_double x \<le> of_int 1 * 2 powi 0"
    by (rule nearest_double_le [OF pos]) (use assms b in simp_all)
  then have le: "nearest_double x \<le> 1" by simp
  have "ulp x \<le> 2 powi (0 - 52)"
    by (rule ulp_le [OF False lt]) simp
  with nearest_double_error [of x] have "\<bar>nearest_double x - x\<bar> \<le> 2 powi (- 52) / 2"
    by simp
  then have err: "\<bar>nearest_double x - x\<bar> \<le> 2 powi (- 53)" by simp
  from nearest_double_nonneg [OF assms(1)] le err show ?thesis by simp
qed

lemma nearest_double_100:
  assumes "0 \<le> x" and "x \<le> 100"
  shows "0 \<le> nearest_double x \<and> nearest_double x \<le> 100 \<and> \<bar>nearest_double x - x\<bar> \<le> 2 powi (- 47)"
proof (cases "x = 0")
  case True
  then show ?thesis by (simp add: nearest_double_def)
next
  case False
  with assms have pos: "0 < x" by simp
  have lt: "\<bar>x\<bar> < 2 powi (6 + 1)" using assms by simp
  have b: "binade x \<le> 6" by (rule binade_le [OF False lt])
  have "nearest_double x \<le> of_int 25 * 2 powi 2"
    by (rule nearest_double_le [OF pos]) (use assms b in simp_all)
  then have le: "nearest_double x \<le> 100" by simp
  have "ulp x \<le> 2 powi (6 - 52)"
    by (rule ulp_le [OF False lt]) simp
  with nearest_double_error [of x] have "\<bar>nearest_double x - x\<bar> \<le> 2 powi (- 46) / 2"
    by simp
  then have err: "\<bar>nearest_double x - x\<bar> \<le> 2 powi (- 47)" by simp
  from nearest_double_nonneg [OF assms(1)] le err show ?thesis by simp
qed

section \<open>Properties of the coverage percentages\<close>

lemma small_powers:
  "(2 :: rat) powi (- 47) = 1 / 140737488355328"
  "(2 :: rat) powi (- 53) = 1 / 9007199254740992"
  by (simp_all add: power_int_minus field_simps)

lemma abs_diff_chain: "\<bar>a - c\<bar> \<le> \<bar>a - b\<bar> + \<bar>b - c\<bar>" for a b c :: rat
  by linarith

lemma below_overflow:
  assumes "\<bar>r\<bar> \<le> 100"
  shows "\<not> double_overflow \<le> \<bar>r\<bar>" and "\<not> double_overflow \<le> r" and "\<not> r \<le> - double_overflow"
proof -
  have big: "(100 :: rat) < double_overflow"
    by (simp add: double_overflow_def)
  from assms big show "\<not> double_overflow \<le> \<bar>r\<bar>"
    by linarith
  from assms big show "\<not> double_overflow \<le> r"
    by linarith
  from assms big show "\<not> r \<le> - double_overflow"
    by linarith
qed

lemma int_truediv_part:
  assumes "0 \<le> covered" and "0 \<le> missed" and "0 < missed + covered"
  shows "int_truediv covered (missed + covered)
           = Inr (nearest_double (of_int covered / of_int (missed + covered))) \<and>
         0 \<le> nearest_double (of_int covered / of_int (missed + covered)) \<and>
         nearest_double (of_int covered / of_int (missed + covered)) \<le> 1 \<and>
         \<bar>nearest_double (of_int covered / of_int (missed + covered))
            - of_int covered / of_int (missed + covered)\<bar> \<le> 2 powi (- 53)"
proof -
  define x :: rat where "x = of_int covered / of_int (missed + covered)"
  have pos: "(0 :: rat) < of_int (missed + covered)"
    using assms(3) by (simp only: of_int_0_less_iff)
  have c0: "(0 :: rat) \<le> of_int covered"
    using assms(1) by simp
  have le: "(of_int covered :: rat) \<le> of_int (missed + covered)"
    using assms(2) by simp
  have x0: "0 \<le> x"
    unfolding x_def using pos c0 by simp
  have x1: "x \<le> 1"
    unfolding x_def using pos le by (simp add: divide_le_eq)
  note u = nearest_double_unit [OF x0 x1]
  from u have "\<bar>nearest_double x\<bar> \<le> 100"
    by simp
  from below_overflow(1) [OF this] assms(3)
  have "int_truediv covered (missed + covered) = Inr (nearest_double x)"
    by (simp add: int_truediv_def Let_def x_def)
  with u show ?thesis
    unfolding x_def by simp
qed

lemma float_mul_100:
  assumes "0 \<le> q" and "q \<le> 1"
  shows "float_mul q 100 = Float (nearest_double (q * 100)) \<and>
         0 \<le> nearest_double (q * 100) \<and> nearest_double (q * 100) \<le> 100 \<and>
         \<bar>nearest_double (q * 100) - q * 100\<bar> \<le> 2 powi (- 47)"
proof -
  have y0: "0 \<le> q * 100" and y1: "q * 100 \<le> 100"
    using assms by simp_all
  note h = nearest_double_100 [OF y0 y1]
  from h have "\<bar>nearest_double (q * 100)\<bar> \<le> 100"
    by simp
  from below_overflow(2,3) [OF this]
  have "float_mul q 100 = Float (nearest_double (q * 100))"
    by (simp add: float_mul_def Let_def)
  with h show ?thesis by simp
qed

lemma percentage_of_counts:
  assumes "0 \<le> missed" and "0 \<le> covered" and "0 < missed + covered"
  shows "\<exists>p. percentage missed covered = Inr (Float p) \<and>
             p = nearest_double
                   (nearest_double (of_int covered / of_int (missed + covered)) * 100) \<and>
             0 \<le> p \<and> p \<le> 100 \<and>
             \<bar>p - of_int covered / of_int (missed + covered) * 100\<bar>
               \<le> 2 powi (- 47) + 100 * 2 powi (- 53)"
proof -
  define x :: rat where "x = of_int covered / of_int (missed + covered)"
  define q where "q = nearest_double x"
  define p where "p = nearest_double (q * 100)"
  from int_truediv_part [OF assms(2,1,3)]
  have d: "int_truediv covered (missed + covered) = Inr q"
    and q0: "0 \<le> q" and q1: "q \<le> 1" and qe: "\<bar>q - x\<bar> \<le> 2 powi (- 53)"
    unfolding q_def x_def by simp_all
  from float_mul_100 [OF q0 q1]
  have m: "float_mul q 100 = Float p"
    and p0: "0 \<le> p" and p1: "p \<le> 100" and pe: "\<bar>p - q * 100\<bar> \<le> 2 powi (- 47)"
    unfolding p_def by simp_all
  have val: "percentage missed covered = Inr (Float p)"
    using assms(3) by (simp add: percentage_def Let_def d m)
  have e: "q * 100 - x * 100 = (q - x) * 100"
    by (simp add: algebra_simps)
  have "\<bar>q * 100 - x * 100\<bar> = \<bar>q - x\<bar> * 100"
    unfolding e by (simp only: abs_mult abs_numeral)
  with abs_diff_chain [of p "x * 100" "q * 100"]
  have "\<bar>p - x * 100\<bar> \<le> \<bar>p - q * 100\<bar> + \<bar>q - x\<bar> * 100"
    by simp
  also have "\<dots> \<le> 2 powi (- 47) + 2 powi (- 53) * 100"
    using pe qe by (intro add_mono mult_right_mono) simp_all
  finally have err: "\<bar>p - x * 100\<bar> \<le> 2 powi (- 47) + 100 * 2 powi (- 53)"
    by simp
  from val p0 p1 err show ?thesis
    unfolding p_def q_def x_def by blast
qed

lemma percentage_no_counts: "percentage 0 0 = Inr (Float 100)"
  by (simp add: percentage_def)

lemma round2_diff: "\<bar>round2 x - x\<bar> \<le> 1 / 200"
proof -
  have "\<bar>of_int (round_half_even (x * 100)) - x * 100\<bar> \<le> 1 / 2"
    by (rule round_half_even_diff)
  then show ?thesis by (simp add: round2_def abs_le_iff field_simps)
qed

lemma float_round2_percent:
  assumes "0 \<le> p" and "p \<le> 100"
  shows "float_round2 (Float p) = Float (nearest_double (of_int (round_half_even (p * 100)) / 100)) \<and>
         0 \<le> round_half_even (p * 100) \<and> round_half_even (p * 100) \<le> 10000 \<and>
         0 \<le> nearest_double (of_int (round_half_even (p * 100)) / 100) \<and>
         nearest_double (of_int (round_half_even (p * 100)) / 100) \<le> 100 \<and>
         \<bar>nearest_double (of_int (round_half_even (p * 100)) / 100) - p\<bar>
           \<le> 1 / 200 + 2 powi (- 47)"
proof -
  define k where "k = round_half_even (p * 100)"
  define z :: rat where "z = of_int k / 100"
  have "0 \<le> p * 100" using assms by simp
  then have k0: "0 \<le> k"
    unfolding k_def by (rule round_half_even_nonneg)
  have "p * 100 \<le> of_int 10000" using assms by simp
  then have k1: "k \<le> 10000"
    unfolding k_def by (rule round_half_even_le)
  from k1 have "(of_int k :: rat) \<le> of_int 10000"
    by (simp only: of_int_le_iff)
  then have z1: "z \<le> 100"
    by (simp add: z_def)
  have z0: "0 \<le> z"
    using k0 by (simp add: z_def)
  have zr: "z = round2 p"
    by (simp add: z_def k_def round2_def)
  note h = nearest_double_100 [OF z0 z1]
  have "\<bar>nearest_double z - p\<bar> \<le> \<bar>nearest_double z - z\<bar> + \<bar>round2 p - p\<bar>"
    unfolding zr by (rule abs_diff_chain)
  also have "\<dots> \<le> 2 powi (- 47) + 1 / 200"
    using h round2_diff [of p] by (intro add_mono) simp_all
  finally have err: "\<bar>nearest_double z - p\<bar> \<le> 1 / 200 + 2 powi (- 47)"
    by simp
  have "float_round2 (Float p) = Float (nearest_double z)"
    by (simp add: float_round2_def zr)
  with k0 k1 h err show ?thesis
    unfolding z_def k_def by simp
qed

lemma hundred_is_kept:
  "round_half_even (100 * 100) = 10000" "nearest_double (of_int 10000 / 100) = 100"
  by code_simp+

lemma apply_counter_pick:
  assumes "apply_counter cov counter = Inr cov'"
    and "T = ''LINE'' \<or> T = ''BRANCH'' \<or> T = ''METHOD''"
  shows "\<exists>missed covered p.
           get_int counter ''missed'' = Inr missed \<and> get_int counter ''covered'' = Inr covered \<and>
           percentage missed covered = Inr p \<and>
           pick_percent T cov' =
             (if get counter ''type'' = Some T then float_round2 p else pick_percent T cov)"
  using assms
  by (auto simp: apply_counter_def pick_percent_def split: prod.splits sum.splits if_splits)

lemma scan_counters_other_types:
  assumes "scan_counters cs cov = Inr cov'"
    and "T = ''LINE'' \<or> T = ''BRANCH'' \<or> T = ''METHOD''"
    and "filter (\<lambda>c. get c ''type'' = Some T) cs = []"
  shows "pick_percent T cov' = pick_percent T cov"
  using assms
proof (induction cs arbitrary: cov)
  case Nil
  then show ?case by simp
next
  case (Cons c cs)
  from Cons.prems(1) obtain cov1 where
    1: "apply_counter cov c = Inr cov1" and 2: "scan_counters cs cov1 = Inr cov'"
    by (auto split: sum.splits)
  from Cons.prems(3) have nt: "get c ''type'' \<noteq> Some T"
    and rest: "filter (\<lambda>c. get c ''type'' = Some T) cs = []"
    by (auto split: if_splits)
  from apply_counter_pick [OF 1 Cons.prems(2)] nt
  have "pick_percent T cov1 = pick_percent T cov" by auto
  with Cons.IH [OF 2 Cons.prems(2) rest] show ?case by simp
qed

lemma scan_counters_last:
  assumes "scan_counters cs cov = Inr cov'"
    and "T = ''LINE'' \<or> T = ''BRANCH'' \<or> T = ''METHOD''"
    and "filter (\<lambda>c. get c ''type'' = Some T) cs = pre @ [counter]"
  shows "\<exists>missed covered p.
           get_int counter ''missed'' = Inr missed \<and> get_int counter ''covered'' = Inr covered \<and>
           percentage missed covered = Inr p \<and>
           pick_percent T cov' = float_round2 p"
  using assms
proof (induction cs arbitrary: cov pre)
  case Nil
  then show ?case by simp
next
  case (Cons c cs)
  from Cons.prems(1) obtain cov1 where
    1: "apply_counter cov c = Inr cov1" and 2: "scan_counters cs cov1 = Inr cov'"
    by (auto split: sum.splits)
  show ?case
  proof (cases "filter (\<lambda>c. get c ''type'' = Some T) cs = []")
    case True
    with Cons.prems(3) have c: "c = counter" and t: "get c ''type'' = Some T"
      by (auto split: if_splits)
    from scan_counters_other_types [OF 2 Cons.prems(2) True]
    have "pick_percent T cov' = pick_percent T cov1" .
    with apply_counter_pick [OF 1 Cons.prems(2)] c t show ?thesis by auto
  next
    case False
    then obtain pre' where "filter (\<lambda>c. get c ''type'' = Some T) cs = pre' @ [counter]"
      using Cons.prems(3)
      by (cases "get c ''type'' = Some T"; cases pre) (auto split: if_splits)
    from Cons.IH [OF 2 Cons.prems(2) this] show ?thesis .
  qed
qed

lemma dashboard_reported_percent:
  assumes "get_quality_dashboard surefire (Some (Parsed root_elem)) = Inr d"
  shows "\<exists>cov. scan_counters (findall root_elem ''counter'') (Float 0, Float 0, Float 0) = Inr cov \<and>
               (\<forall>T. reported_percent d T = pick_percent T cov)"
  using assms
  by (auto simp: get_quality_dashboard_def Let_def reported_percent_def pick_percent_def
           split: sum.splits prod.splits)

text \<open>
  C4, as the claim states it, fails. For a top-level \<open>LINE\<close> counter with \<open>missed = 137\<close>
  and \<open>covered = 23\<close> the percentage is 14.375, which rounded to two decimals is 14.38.
  The code computes in binary floating point: \<^verbatim>\<open>23 / 160\<close> is the float just below
  0.14375, its product with 100 is the float 14.374999999999998, and \<^verbatim>\<open>round\<close> gives the
  float nearest to 14.37. That float is not the one nearest to 14.38, and it is more than
  half a hundredth away from the percentage.
\<close>

theorem coverage_137_23_reported_as_14_37:
  "get_quality_dashboard None (Some (Parsed report_137_23))
     = Inr \<lparr>test_run_summary =
              \<lparr>total_tests = 0, passed = 0, failures = 0, errors = 0, skipped = 0\<rparr>,
            code_coverage_summary =
              \<lparr>line_coverage_percent = Float (nearest_double (1437 / 100)),
               branch_coverage_percent = Float 0,
               method_coverage_percent = Float 0\<rparr>\<rparr> \<and>
   percentage 137 23 = Inr (Float (8092405580431359 / 562949953421312)) \<and>
   round2 (of_int 23 / of_int (137 + 23) * 100) = 1438 / 100 \<and>
   nearest_double (1437 / 100) \<noteq> nearest_double (1438 / 100) \<and>
   1 / 200 < \<bar>nearest_double (1437 / 100) - of_int 23 / of_int (137 + 23) * 100\<bar>"
proof -
  have 1: "get_quality_dashboard None (Some (Parsed report_137_23))
     = Inr \<lparr>test_run_summary =
              \<lparr>total_tests = 0, passed = 0, failures = 0, errors = 0, skipped = 0\<rparr>,
            code_coverage_summary =
              \<lparr>line_coverage_percent = Float (nearest_double (1437 / 100)),
               branch_coverage_percent = Float 0,
               method_coverage_percent = Float 0\<rparr>\<rparr>"
    by code_simp
  have 2: "percentage 137 23 = Inr (Float (8092405580431359 / 562949953421312))"
    by code_simp
  have 3: "round2 (of_int 23 / of_int (137 + 23) * 100) = 1438 / 100"
    by code_simp
  have 4: "nearest_double (1437 / 100) \<noteq> nearest_double (1438 / 100)"
    by code_simp
  have 5: "1 / 200 < \<bar>nearest_double (1437 / 100) - of_int 23 / of_int (137 + 23) * 100\<bar>"
    by code_simp
  from 1 2 3 4 5 show ?thesis
    by (intro conjI)
qed

text \<open>
  C4, amended. Let \<open>T\<close> be \<open>LINE\<close>, \<open>BRANCH\<close> or \<open>METHOD\<close>, and let a dashboard be
  returned for a report whose last top-level counter of type \<open>T\<close> has the counts
  \<open>missed \<ge> 0\<close> and \<open>covered \<ge> 0\<close>. Then the percentage \<open>p\<close> of line 156 is a finite float,
  for a positive sum the float product by 100 of the float quotient
  \<open>covered / (missed + covered)\<close>, and the value reported for \<open>T\<close> is the float \<open>r\<close> nearest
  to \<open>k / 100\<close>, where \<open>k\<close> is the integer nearest to \<open>p * 100\<close> (the even one at a tie) and
  lies within 0 and 10000. The reported value lies within 0 and 100, it is at most
  \<open>1/200 + 1/10^13\<close> away from the percentage \<open>covered / (missed + covered) * 100\<close>, and it
  is exactly 100 when both counts are 0.
\<close>

theorem coverage_percentage_of_last_counter:
  assumes "get_quality_dashboard surefire (Some (Parsed root_elem)) = Inr d"
    and "T = ''LINE'' \<or> T = ''BRANCH'' \<or> T = ''METHOD''"
    and "filter (\<lambda>c. get c ''type'' = Some T) (findall root_elem ''counter'') = pre @ [counter]"
    and "get_int counter ''missed'' = Inr missed"
    and "get_int counter ''covered'' = Inr covered"
    and "0 \<le> missed" and "0 \<le> covered"
  shows "\<exists>p k r.
           percentage missed covered = Inr (Float p) \<and>
           (0 < missed + covered \<longrightarrow>
              p = nearest_double
                    (nearest_double (of_int covered / of_int (missed + covered)) * 100)) \<and>
           k = round_half_even (p * 100) \<and> 0 \<le> k \<and> k \<le> 10000 \<and>
           r = nearest_double (of_int k / 100) \<and>
           reported_percent d T = Float r \<and>
           0 \<le> r \<and> r \<le> 100 \<and>
           (0 < missed + covered \<longrightarrow>
              \<bar>r - of_int covered / of_int (missed + covered) * 100\<bar>
                \<le> 1 / 200 + 1 / 10 ^ 13) \<and>
           (missed = 0 \<and> covered = 0 \<longrightarrow> r = 100)"
proof -
  from dashboard_reported_percent [OF assms(1)] obtain cov where
    sc: "scan_counters (findall root_elem ''counter'') (Float 0, Float 0, Float 0) = Inr cov"
    and rp: "reported_percent d T = pick_percent T cov"
    by blast
  from scan_counters_last [OF sc assms(2,3)] assms(4,5) obtain p' where
    p': "percentage missed covered = Inr p'" and
    rep: "reported_percent d T = float_round2 p'"
    by (auto simp: rp)
  have "\<exists>p. percentage missed covered = Inr (Float p) \<and> 0 \<le> p \<and> p \<le> 100 \<and>
          (0 < missed + covered \<longrightarrow>
             p = nearest_double
                   (nearest_double (of_int covered / of_int (missed + covered)) * 100) \<and>
             \<bar>p - of_int covered / of_int (missed + covered) * 100\<bar>
               \<le> 2 powi (- 47) + 100 * 2 powi (- 53)) \<and>
          (missed = 0 \<and> covered = 0 \<longrightarrow> p = 100)"
  proof (cases "0 < missed + covered")
    case True
    from percentage_of_counts [OF assms(6,7) True] True show ?thesis
      by auto
  next
    case False
    with assms(6,7) have "missed = 0" "covered = 0"
      by simp_all
    then show ?thesis
      by (simp add: percentage_no_counts)
  qed
  then obtain p where
    val: "percentage missed covered = Inr (Float p)" and p0: "0 \<le> p" and p1: "p \<le> 100" and
    pos: "0 < missed + covered \<Longrightarrow>
            p = nearest_double
                  (nearest_double (of_int covered / of_int (missed + covered)) * 100)" and
    perr: "0 < missed + covered \<Longrightarrow>
            \<bar>p - of_int covered / of_int (missed + covered) * 100\<bar>
              \<le> 2 powi (- 47) + 100 * 2 powi (- 53)" and
    zero: "missed = 0 \<and> covered = 0 \<Longrightarrow> p = 100"
    by blast
  define k where "k = round_half_even (p * 100)"
  define r where "r = nearest_double (of_int k / 100)"
  from float_round2_percent [OF p0 p1]
  have fr: "float_round2 (Float p) = Float r"
    and k0: "0 \<le> k" and k1: "k \<le> 10000" and r0: "0 \<le> r" and r1: "r \<le> 100"
    and rerr: "\<bar>r - p\<bar> \<le> 1 / 200 + 2 powi (- 47)"
    unfolding r_def k_def by simp_all
  from p' val have "p' = Float p"
    by simp
  with rep fr have reported: "reported_percent d T = Float r"
    by simp
  have near: "\<bar>r - of_int covered / of_int (missed + covered) * 100\<bar> \<le> 1 / 200 + 1 / 10 ^ 13"
    if "0 < missed + covered"
  proof -
    have "\<bar>r - of_int covered / of_int (missed + covered) * 100\<bar>
            \<le> \<bar>r - p\<bar> + \<bar>p - of_int covered / of_int (missed + covered) * 100\<bar>"
      by (rule abs_diff_chain)
    also have "\<dots> \<le> (1 / 200 + 2 powi (- 47)) + (2 powi (- 47) + 100 * 2 powi (- 53))"
      by (rule add_mono [OF rerr perr [OF that]])
    also have "\<dots> \<le> 1 / 200 + 1 / 10 ^ 13"
      by (simp add: small_powers)
    finally show ?thesis .
  qed
  have full: "r = 100" if "missed = 0 \<and> covered = 0"
  proof -
    from zero [OF that] have "k = round_half_even (100 * 100)"
      by (simp only: k_def)
    then have "k = 10000"
      by (simp only: hundred_is_kept(1))
    then show ?thesis
      by (simp only: r_def hundred_is_kept(2))
  qed
  from val pos k_def k0 k1 r_def reported r0 r1 near full show ?thesis
    by blast
qed

theorem coverage_percentage_of_last_counter_witness:
  "\<exists>d r. get_quality_dashboard None (Some (Parsed report_one_third)) = Inr d \<and>
       reported_percent d ''BRANCH'' = Float r \<and>
       r = nearest_double (3333 / 100) \<and>
       0 \<le> r \<and> r \<le> 100 \<and> \<bar>r - 100 / 3\<bar> \<le> 1 / 200 + 1 / 10 ^ 13"
proof -
  let ?c = "Element ''counter'' [(''type'', ''BRANCH''), (''missed'', ''2''), (''covered'', ''1'')] None []"
  have "get_quality_dashboard None (Some (Parsed report_one_third))
          = Inr \<lparr>test_run_summary =
                   \<lparr>total_tests = 0, passed = 0, failures = 0, errors = 0, skipped = 0\<rparr>,
                 code_coverage_summary =
                   \<lparr>line_coverage_percent = Float 0,
                    branch_coverage_percent = Float (nearest_double (3333 / 100)),
                    method_coverage_percent = Float 0\<rparr>\<rparr>"
    by code_simp
  then obtain d where d: "get_quality_dashboard None (Some (Parsed report_one_third)) = Inr d"
    and v: "reported_percent d ''BRANCH'' = Float (nearest_double (3333 / 100))"
    by (simp add: reported_percent_def)
  have t: "''BRANCH'' = ''LINE'' \<or> ''BRANCH'' = ''BRANCH'' \<or> ''BRANCH'' = ''METHOD''"
    by simp
  have f: "filter (\<lambda>c. get c ''type'' = Some ''BRANCH'') (findall report_one_third ''counter'')
             = [] @ [?c]"
    by (simp add: report_one_third_def findall_def get_def)
  have m: "get_int ?c ''missed'' = Inr 2"
    by code_simp
  have c: "get_int ?c ''covered'' = Inr 1"
    by code_simp
  from coverage_percentage_of_last_counter [OF d t f m c]
  obtain r where
    "reported_percent d ''BRANCH'' = Float r" "0 \<le> r" "r \<le> 100"
    "\<bar>r - of_int 1 / of_int (2 + 1) * 100\<bar> \<le> 1 / 200 + 1 / 10 ^ 13"
    by auto
  with d v show ?thesis
    by auto
qed

section \<open>Properties of the uncovered-lines mapping\<close>

lemma uncovered_line_Some:
  assumes "uncovered_line l = Some n"
  shows "\<exists>s mi. get l ''mi'' = Some s \<and> py_int s = Some mi \<and> 0 < mi"
  using assms
  by (auto simp: uncovered_line_def split: option.splits if_splits)

lemma uncovered_lines_has_missed_line:
  assumes "uncovered_lines c \<noteq> []"
  shows "has_missed_line c"
proof -
  from assms obtain l where l: "l \<in> set (findall_path c ''sourcefile'' ''line'')"
    and "uncovered_line l \<noteq> None"
    by (auto simp: uncovered_lines_def List.map_filter_def filter_empty_conv)
  then obtain n where "uncovered_line l = Some n" by auto
  from uncovered_line_Some [OF this] l show ?thesis
    unfolding has_missed_line_def by blast
qed

lemma no_missed_line_no_uncovered_lines:
  "\<not> has_missed_line c \<Longrightarrow> uncovered_lines c = []"
  using uncovered_lines_has_missed_line by blast

lemma keys_dict_set: "fst ` set (dict_set k v d) = insert k (fst ` set d)"
proof (induction d)
  case Nil
  show ?case by simp
next
  case (Cons a d)
  obtain k' v' where a: "a = (k', v')" by (cases a)
  show ?case
    using Cons.IH by (cases "k' = k") (simp_all add: a insert_commute)
qed

lemma set_dict_set: "set (dict_set k v d) \<subseteq> insert (k, v) (set d)"
  by (induction d) (auto split: if_splits)

lemma distinct_dict_set:
  "distinct (map fst d) \<Longrightarrow> distinct (map fst (dict_set k v d))"
proof (induction d)
  case Nil
  then show ?case by simp
next
  case (Cons a d)
  obtain k' v' where a: "a = (k', v')" by (cases a)
  show ?case
  proof (cases "k' = k")
    case True
    with Cons.prems a show ?thesis by simp
  next
    case False
    have "k' \<notin> fst ` set (dict_set k v d)"
      using Cons.prems a False by (simp add: keys_dict_set)
    with Cons a False show ?thesis by simp
  qed
qed

lemma scan_classes_no_lines:
  "\<forall>c \<in> set cs. uncovered_lines c = [] \<Longrightarrow> scan_classes pn cs m = Inr m"
  by (induction cs arbitrary: m) auto

lemma scan_classes_Cons_empty:
  assumes "scan_classes pn (c # cs) m = Inr m'" and "uncovered_lines c = []"
  shows "scan_classes pn cs m = Inr m'"
  using assms by simp

lemma scan_classes_Cons_lines:
  assumes "scan_classes pn (c # cs) m = Inr m'" and "uncovered_lines c \<noteq> []"
  shows "\<exists>k. full_class_name pn (get c ''name'') = Inr k \<and>
             scan_classes pn cs (dict_set k (sort (remdups (uncovered_lines c))) m) = Inr m'"
proof (cases "full_class_name pn (get c ''name'')")
  case (Inl e)
  with assms show ?thesis by simp
next
  case (Inr k)
  with assms show ?thesis by simp
qed

lemma scan_classes_item:
  assumes "scan_classes pn cs m = Inr m'" and "item \<in> set m'"
  shows "item \<in> set m \<or> (\<exists>c \<in> set cs. class_item pn c item)"
  using assms
proof (induction cs arbitrary: m)
  case Nil
  then show ?case by simp
next
  case (Cons c cs)
  show ?case
  proof (cases "uncovered_lines c = []")
    case True
    from scan_classes_Cons_empty [OF Cons.prems(1) True]
    have "scan_classes pn cs m = Inr m'" .
    from Cons.IH [OF this Cons.prems(2)] show ?thesis by auto
  next
    case False
    from scan_classes_Cons_lines [OF Cons.prems(1) False] obtain k where
      k: "full_class_name pn (get c ''name'') = Inr k" and
      rec: "scan_classes pn cs (dict_set k (sort (remdups (uncovered_lines c))) m) = Inr m'"
      by blast
    from Cons.IH [OF rec Cons.prems(2)]
    consider "item \<in> set (dict_set k (sort (remdups (uncovered_lines c))) m)"
      | "\<exists>c' \<in> set cs. class_item pn c' item"
      by blast
    then show ?thesis
    proof cases
      case 1
      with set_dict_set [of k "sort (remdups (uncovered_lines c))" m]
      consider "item = (k, sort (remdups (uncovered_lines c)))" | "item \<in> set m"
        by blast
      then show ?thesis
      proof cases
        case 1
        with k False have "class_item pn c item" by (simp add: class_item_def)
        then show ?thesis by simp
      next
        case 2
        then show ?thesis by simp
      qed
    next
      case 2
      then show ?thesis by auto
    qed
  qed
qed

lemma scan_classes_distinct:
  assumes "scan_classes pn cs m = Inr m'" and "distinct (map fst m)"
  shows "distinct (map fst m')"
  using assms
proof (induction cs arbitrary: m)
  case Nil
  then show ?case by simp
next
  case (Cons c cs)
  show ?case
  proof (cases "uncovered_lines c = []")
    case True
    from Cons.IH [OF scan_classes_Cons_empty [OF Cons.prems(1) True] Cons.prems(2)]
    show ?thesis .
  next
    case False
    from scan_classes_Cons_lines [OF Cons.prems(1) False] obtain k where
      rec: "scan_classes pn cs (dict_set k (sort (remdups (uncovered_lines c))) m) = Inr m'"
      by blast
    from Cons.IH [OF rec distinct_dict_set [OF Cons.prems(2)]] show ?thesis .
  qed
qed

lemma scan_packages_no_lines:
  "\<forall>p \<in> set ps. \<forall>c \<in> set (findall p ''class''). uncovered_lines c = [] \<Longrightarrow>
   scan_packages ps m = Inr m"
  by (induction ps arbitrary: m) (simp_all add: scan_classes_no_lines)

lemma scan_packages_Cons:
  assumes "scan_packages (p # ps) m = Inr m'"
  shows "\<exists>m1. scan_classes (get p ''name'') (findall p ''class'') m = Inr m1 \<and>
              scan_packages ps m1 = Inr m'"
proof (cases "scan_classes (get p ''name'') (findall p ''class'') m")
  case (Inl e)
  with assms show ?thesis by simp
next
  case (Inr m1)
  with assms show ?thesis by simp
qed

lemma scan_packages_item:
  assumes "scan_packages ps m = Inr m'" and "item \<in> set m'"
  shows "item \<in> set m \<or> item_of_class ps item"
  using assms
proof (induction ps arbitrary: m)
  case Nil
  then show ?case by simp
next
  case (Cons p ps)
  from scan_packages_Cons [OF Cons.prems(1)] obtain m1 where
    1: "scan_classes (get p ''name'') (findall p ''class'') m = Inr m1"
    and 2: "scan_packages ps m1 = Inr m'"
    by blast
  from Cons.IH [OF 2 Cons.prems(2)] consider "item \<in> set m1" | "item_of_class ps item"
    by blast
  then show ?case
  proof cases
    case 1
    from scan_classes_item [OF \<open>scan_classes (get p ''name'') (findall p ''class'') m = Inr m1\<close> 1]
    consider "item \<in> set m" | "\<exists>c \<in> set (findall p ''class''). class_item (get p ''name'') c item"
      by blast
    then show ?thesis
    proof cases
      case 1
      then show ?thesis by simp
    next
      case 2
      then have "item_of_class (p # ps) item"
        unfolding item_of_class_def by simp
      then show ?thesis by simp
    qed
  next
    case 2
    then have "item_of_class (p # ps) item"
      unfolding item_of_class_def by simp
    then show ?thesis by simp
  qed
qed

lemma scan_packages_distinct:
  assumes "scan_packages ps m = Inr m'" and "distinct (map fst m)"
  shows "distinct (map fst m')"
  using assms
proof (induction ps arbitrary: m)
  case Nil
  then show ?case by simp
next
  case (Cons p ps)
  from scan_packages_Cons [OF Cons.prems(1)] obtain m1 where
    1: "scan_classes (get p ''name'') (findall p ''class'') m = Inr m1"
    and 2: "scan_packages ps m1 = Inr m'"
    by blast
  from Cons.IH [OF 2 scan_classes_distinct [OF 1 Cons.prems(2)]] show ?case .
qed

text \<open>
  C5. When \<^verbatim>\<open>get_missing_coverage\<close> returns a mapping, the mapping is not empty, has each
  class name once, and each of its entries comes from a class element that has a line
  with a present, numeric, positive \<^verbatim>\<open>mi\<close>, the entry's lines being that class's
  uncovered line numbers in ascending order without duplicates; a class without such a
  line contributes no line and no entry. When no class has an uncovered line the result
  is the status \<^verbatim>\<open>100% Coverage!\<close>.
\<close>

theorem missing_coverage_mapping:
  "(get_missing_coverage path (Some (Parsed root_elem)) = Cov_missing m \<longrightarrow>
      m \<noteq> [] \<and> distinct (map fst m) \<and>
      (\<forall>item \<in> set m.
         sorted (snd item) \<and> distinct (snd item) \<and> snd item \<noteq> [] \<and>
         (\<exists>p \<in> set (findall root_elem ''package''). \<exists>c \<in> set (findall p ''class'').
            full_class_name (get p ''name'') (get c ''name'') = Inr (fst item) \<and>
            has_missed_line c \<and>
            set (snd item) = set (uncovered_lines c)))) \<and>
   (\<forall>p \<in> set (findall root_elem ''package''). \<forall>c \<in> set (findall p ''class'').
      \<not> has_missed_line c \<longrightarrow> uncovered_lines c = []) \<and>
   ((\<forall>p \<in> set (findall root_elem ''package''). \<forall>c \<in> set (findall p ''class'').
       uncovered_lines c = [])
      \<longrightarrow> get_missing_coverage path (Some (Parsed root_elem)) = Cov_status ''100% Coverage!'')"
proof (intro conjI)
  show "get_missing_coverage path (Some (Parsed root_elem)) = Cov_missing m \<longrightarrow>
      m \<noteq> [] \<and> distinct (map fst m) \<and>
      (\<forall>item \<in> set m.
         sorted (snd item) \<and> distinct (snd item) \<and> snd item \<noteq> [] \<and>
         (\<exists>p \<in> set (findall root_elem ''package''). \<exists>c \<in> set (findall p ''class'').
            full_class_name (get p ''name'') (get c ''name'') = Inr (fst item) \<and>
            has_missed_line c \<and>
            set (snd item) = set (uncovered_lines c)))"
  proof
    assume r: "get_missing_coverage path (Some (Parsed root_elem)) = Cov_missing m"
    have sp: "scan_packages (findall root_elem ''package'') [] = Inr m"
    proof (cases "scan_packages (findall root_elem ''package'') []")
      case (Inl e)
      with r show ?thesis by (simp add: get_missing_coverage_def)
    next
      case (Inr m0)
      with r show ?thesis by (simp add: get_missing_coverage_def split: if_splits)
    qed
    have ne: "m \<noteq> []"
      using r sp by (auto simp: get_missing_coverage_def)
    have dist: "distinct (map fst m)"
      by (rule scan_packages_distinct [OF sp]) simp
    have item: "sorted (snd item) \<and> distinct (snd item) \<and> snd item \<noteq> [] \<and>
         (\<exists>p \<in> set (findall root_elem ''package''). \<exists>c \<in> set (findall p ''class'').
            full_class_name (get p ''name'') (get c ''name'') = Inr (fst item) \<and>
            has_missed_line c \<and>
            set (snd item) = set (uncovered_lines c))"
      if "item \<in> set m" for item
    proof -
      from scan_packages_item [OF sp that]
      have "item_of_class (findall root_elem ''package'') item" by simp
      then obtain p c where p: "p \<in> set (findall root_elem ''package'')"
        and c: "c \<in> set (findall p ''class'')"
        and ci: "class_item (get p ''name'') c item"
        unfolding item_of_class_def by blast
      from ci have n: "full_class_name (get p ''name'') (get c ''name'') = Inr (fst item)"
        and u: "uncovered_lines c \<noteq> []"
        and s: "snd item = sort (remdups (uncovered_lines c))"
        by (simp_all add: class_item_def)
      have e: "set (snd item) = set (uncovered_lines c)" by (simp add: s)
      from e u have ne': "snd item \<noteq> []" by auto
      have so: "sorted (snd item)" and di: "distinct (snd item)" by (simp_all add: s)
      have h: "has_missed_line c" using u by (rule uncovered_lines_has_missed_line)
      from n h e c have "\<exists>c \<in> set (findall p ''class'').
            full_class_name (get p ''name'') (get c ''name'') = Inr (fst item) \<and>
            has_missed_line c \<and> set (snd item) = set (uncovered_lines c)"
        by blast
      with p have "\<exists>p \<in> set (findall root_elem ''package''). \<exists>c \<in> set (findall p ''class'').
            full_class_name (get p ''name'') (get c ''name'') = Inr (fst item) \<and>
            has_missed_line c \<and> set (snd item) = set (uncovered_lines c)"
        by blast
      with so di ne' show ?thesis by simp
    qed
    have all: "\<forall>item \<in> set m.
         sorted (snd item) \<and> distinct (snd item) \<and> snd item \<noteq> [] \<and>
         (\<exists>p \<in> set (findall root_elem ''package''). \<exists>c \<in> set (findall p ''class'').
            full_class_name (get p ''name'') (get c ''name'') = Inr (fst item) \<and>
            has_missed_line c \<and>
            set (snd item) = set (uncovered_lines c))"
      by (rule ballI) (rule item)
    show "m \<noteq> [] \<and> distinct (map fst m) \<and>
      (\<forall>item \<in> set m.
         sorted (snd item) \<and> distinct (snd item) \<and> snd item \<noteq> [] \<and>
         (\<exists>p \<in> set (findall root_elem ''package''). \<exists>c \<in> set (findall p ''class'').
            full_class_name (get p ''name'') (get c ''name'') = Inr (fst item) \<and>
            has_missed_line c \<and>
            set (snd item) = set (uncovered_lines c)))"
      by (rule conjI [OF ne conjI [OF dist all]])
  qed
next
  show "\<forall>p \<in> set (findall root_elem ''package''). \<forall>c \<in> set (findall p ''class'').
      \<not> has_missed_line c \<longrightarrow> uncovered_lines c = []"
    using no_missed_line_no_uncovered_lines by blast
next
  show "(\<forall>p \<in> set (findall root_elem ''package''). \<forall>c \<in> set (findall p ''class'').
       uncovered_lines c = [])
      \<longrightarrow> get_missing_coverage path (Some (Parsed root_elem)) = Cov_status ''100% Coverage!''"
  proof
    assume "\<forall>p \<in> set (findall root_elem ''package''). \<forall>c \<in> set (findall p ''class'').
       uncovered_lines c = []"
    from scan_packages_no_lines [OF this, of "[]"]
    show "get_missing_coverage path (Some (Parsed root_elem)) = Cov_status ''100% Coverage!''"
      by (simp add: get_missing_coverage_def)
  qed
qed

theorem missing_coverage_mapping_witness:
  "get_missing_coverage ''jacoco.xml'' (Some (Parsed report_foo_bar))
     = Cov_missing [(''com.acme.Foo'', [3, 7])] \<and>
   distinct (map fst [(''com.acme.Foo'', [3, 7 :: int])]) \<and>
   get_missing_coverage ''jacoco.xml'' (Some (Parsed report_no_class))
     = Cov_status ''100% Coverage!''"
proof -
  have r: "get_missing_coverage ''jacoco.xml'' (Some (Parsed report_foo_bar))
             = Cov_missing [(''com.acme.Foo'', [3, 7])]"
    by code_simp
  note th1 = missing_coverage_mapping
    [of "''jacoco.xml''" report_foo_bar "[(''com.acme.Foo'', [3, 7])]"]
  from th1 r have d: "distinct (map fst [(''com.acme.Foo'', [3, 7 :: int])])"
    by blast
  have h: "\<forall>p \<in> set (findall report_no_class ''package'').
             \<forall>c \<in> set (findall p ''class''). uncovered_lines c = []"
    by (simp add: report_no_class_def findall_def)
  note th2 = missing_coverage_mapping [of "''jacoco.xml''" report_no_class "[]"]
  from th2 h
  have t: "get_missing_coverage ''jacoco.xml'' (Some (Parsed report_no_class))
             = Cov_status ''100% Coverage!''"
    by blast
  from r d t show ?thesis by blast
qed

section \<open>Further properties\<close>

lemma get_int_numeric:
  assumes "numeric_or_missing e key"
  shows "\<exists>i. get_int e key = Inr i"
  using assms
  by (auto simp: numeric_or_missing_def get_int_def split: option.splits)

lemma add_suite_numeric:
  assumes "numeric_suite suite"
  shows "\<exists>totals'. add_suite totals suite = Inr totals'"
proof -
  from assms have n: "numeric_or_missing suite ''tests''" "numeric_or_missing suite ''failures''"
    "numeric_or_missing suite ''errors''" "numeric_or_missing suite ''skipped''"
    by (simp_all add: numeric_suite_def)
  from get_int_numeric [OF n(1)] obtain t where "get_int suite ''tests'' = Inr t" ..
  moreover from get_int_numeric [OF n(2)] obtain f where "get_int suite ''failures'' = Inr f" ..
  moreover from get_int_numeric [OF n(3)] obtain e where "get_int suite ''errors'' = Inr e" ..
  moreover from get_int_numeric [OF n(4)] obtain s where "get_int suite ''skipped'' = Inr s" ..
  moreover obtain a b c d where "totals = (a, b, c, d)"
    by (metis prod_cases4)
  ultimately show ?thesis
    by (simp add: add_suite_def)
qed

lemma sum_reports_numeric:
  assumes "\<forall>suite. Parsed suite \<in> set files \<longrightarrow> numeric_suite suite"
  shows "\<exists>totals'. sum_reports files totals = Inr totals'"
  using assms
proof (induction files arbitrary: totals)
  case Nil
  show ?case by (rule exI [of _ totals]) simp
next
  case (Cons r files)
  then have rest: "\<forall>suite. Parsed suite \<in> set files \<longrightarrow> numeric_suite suite"
    by simp
  show ?case
  proof (cases r)
    case ParseError
    with Cons.IH [OF rest] show ?thesis by simp
  next
    case (Parsed suite)
    with Cons.prems have "numeric_suite suite" by simp
    from add_suite_numeric [OF this] obtain t1 where "add_suite totals suite = Inr t1"
      by blast
    with Parsed Cons.IH [OF rest, of t1] show ?thesis by simp
  qed
qed

lemma get_int_count:
  assumes "count_or_missing e key"
  shows "\<exists>i. get_int e key = Inr i \<and> 0 \<le> i"
  using assms
  by (auto simp: count_or_missing_def get_int_def split: option.splits)

lemma percentage_returns:
  assumes "0 \<le> missed" and "0 \<le> covered"
  shows "\<exists>p. percentage missed covered = Inr p"
proof (cases "0 < missed + covered")
  case True
  from percentage_of_counts [OF assms True] show ?thesis
    by blast
next
  case False
  then show ?thesis
    by (simp add: percentage_def)
qed

lemma apply_counter_numeric:
  assumes "numeric_counter counter"
  shows "\<exists>cov'. apply_counter cov counter = Inr cov'"
proof -
  from assms have n: "count_or_missing counter ''missed''" "count_or_missing counter ''covered''"
    by (simp_all add: numeric_counter_def)
  from get_int_count [OF n(1)] obtain m where m: "get_int counter ''missed'' = Inr m" "0 \<le> m"
    by blast
  from get_int_count [OF n(2)] obtain c where c: "get_int counter ''covered'' = Inr c" "0 \<le> c"
    by blast
  from percentage_returns [OF m(2) c(2)] obtain p where p: "percentage m c = Inr p" ..
  obtain l b m' where "cov = (l, b, m')"
    by (metis prod_cases3)
  with m(1) c(1) p show ?thesis
    by (simp add: apply_counter_def)
qed

lemma scan_counters_numeric:
  assumes "\<forall>c \<in> set cs. numeric_counter c"
  shows "\<exists>cov'. scan_counters cs cov = Inr cov'"
  using assms
proof (induction cs arbitrary: cov)
  case Nil
  show ?case by (rule exI [of _ cov]) simp
next
  case (Cons c cs)
  then have "numeric_counter c" and rest: "\<forall>c \<in> set cs. numeric_counter c"
    by simp_all
  from apply_counter_numeric [OF this(1)] obtain cov1 where "apply_counter cov c = Inr cov1"
    by blast
  with Cons.IH [OF rest, of cov1] show ?case by simp
qed

text \<open>
  \<^verbatim>\<open>get_quality_dashboard\<close> returns a dashboard, raising nothing, whenever every
  \<^verbatim>\<open>tests\<close>, \<^verbatim>\<open>failures\<close>, \<^verbatim>\<open>errors\<close> and \<^verbatim>\<open>skipped\<close> attribute of a parsed suite and
  every \<^verbatim>\<open>missed\<close> and \<^verbatim>\<open>covered\<close> attribute of a top-level counter is missing or a
  number that is not negative; reports that are absent or do not parse are no obstacle.
\<close>

theorem dashboard_returns_on_numeric_reports:
  assumes "\<forall>files \<in> set_option surefire. \<forall>suite. Parsed suite \<in> set files \<longrightarrow> numeric_suite suite"
    and "\<forall>root_elem. jacoco = Some (Parsed root_elem) \<longrightarrow>
           (\<forall>c \<in> set (findall root_elem ''counter''). numeric_counter c)"
  shows "\<exists>d. get_quality_dashboard surefire jacoco = Inr d"
proof -
  have 1: "\<exists>totals. (case surefire of None \<Rightarrow> Inr (0, 0, 0, 0)
              | Some report_files \<Rightarrow> sum_reports report_files (0, 0, 0, 0)) = Inr totals"
  proof (cases surefire)
    case None
    then show ?thesis by simp
  next
    case (Some files)
    with assms(1) have "\<forall>suite. Parsed suite \<in> set files \<longrightarrow> numeric_suite suite" by simp
    from sum_reports_numeric [OF this] Some show ?thesis by simp
  qed
  have 2: "\<exists>cov. (case jacoco of None \<Rightarrow> Inr (Float 0, Float 0, Float 0)
              | Some ParseError \<Rightarrow> Inr (Float 0, Float 0, Float 0)
              | Some (Parsed root_elem) \<Rightarrow>
                  scan_counters (findall root_elem ''counter'') (Float 0, Float 0, Float 0)) = Inr cov"
  proof (cases jacoco)
    case None
    then show ?thesis by simp
  next
    case (Some outcome)
    show ?thesis
    proof (cases outcome)
      case ParseError
      with Some show ?thesis by simp
    next
      case (Parsed root_elem)
      with Some assms(2) have "\<forall>c \<in> set (findall root_elem ''counter''). numeric_counter c"
        by simp
      from scan_counters_numeric [OF this] Some Parsed show ?thesis by simp
    qed
  qed
  from 1 obtain totals where t: "(case surefire of None \<Rightarrow> Inr (0, 0, 0, 0)
              | Some report_files \<Rightarrow> sum_reports report_files (0, 0, 0, 0)) = Inr totals"
    by blast
  from 2 obtain cov where c: "(case jacoco of None \<Rightarrow> Inr (Float 0, Float 0, Float 0)
              | Some ParseError \<Rightarrow> Inr (Float 0, Float 0, Float 0)
              | Some (Parsed root_elem) \<Rightarrow>
                  scan_counters (findall root_elem ''counter'') (Float 0, Float 0, Float 0)) = Inr cov"
    by blast
  show ?thesis
    unfolding get_quality_dashboard_def t c
    by (auto simp: Let_def split: prod.splits)
qed

theorem dashboard_returns_on_numeric_reports_witness:
  "\<exists>d. get_quality_dashboard (Some [Parsed suite_three_tests, ParseError])
         (Some (Parsed report_one_third)) = Inr d"
proof -
  have s: "numeric_suite suite_three_tests"
    by code_simp
  have 1: "\<forall>files \<in> set_option (Some [Parsed suite_three_tests, ParseError]).
             \<forall>suite. Parsed suite \<in> set files \<longrightarrow> numeric_suite suite"
    using s by simp
  have c: "\<forall>c \<in> set (findall report_one_third ''counter''). numeric_counter c"
    by code_simp
  have 2: "\<forall>root_elem. Some (Parsed report_one_third) = Some (Parsed root_elem) \<longrightarrow>
             (\<forall>c \<in> set (findall root_elem ''counter''). numeric_counter c)"
    using c by simp
  show ?thesis
    by (rule dashboard_returns_on_numeric_reports [OF 1 2])
qed

text \<open>
  For the type \<open>boolean\<close> and a parameter name without \<open>default\<close>, the generator returns
  exactly \<open>[True, False]\<close>, whatever the function name and the constraints are.
\<close>

theorem bva_boolean:
  assumes "\<not> str_in ''default'' (lower param_name)"
  shows "generate_bva_test_cases param_name ''boolean'' function_name constraints
         = Inr [VBool True, VBool False]"
  using assms by (simp add: generate_bva_test_cases_def type_values_def)

theorem bva_boolean_witness:
  "generate_bva_test_cases ''flag'' ''boolean'' ''setFlag'' ''at most 3''
     = Inr [VBool True, VBool False]"
proof -
  have h: "\<not> str_in ''default'' (lower ''flag'')"
    by code_simp
  show ?thesis
    by (rule bva_boolean [OF h])
qed

text \<open>
  In the per-type branch, when no whole-number token of the lower-cased constraints has
  more than 4300 digits, a run of decimal digits of the lower-cased constraints that has
  the start of the text or a non-word character before it, and the end of the text or a
  non-word character after it, is one of the numbers found: with \<open>n\<close> its value, the
  returned sequence contains \<open>n - 1\<close>, \<open>n\<close> and \<open>n + 1\<close>.
\<close>

theorem bva_delimited_number:
  assumes "\<not> str_in ''default'' (lower param_name)"
    and "\<not> (param_type = ''String'' \<and>
            (str_in ''toint'' (lower function_name) \<or> str_in ''parse'' (lower function_name)))"
    and "param_type \<noteq> ''boolean''"
    and "\<forall>ds \<in> set (findall_numbers False (lower constraints)).
           int (length ds) \<le> int_max_str_digits"
    and "lower constraints = pre @ ds @ post"
    and "ds \<noteq> []" and "\<forall>c \<in> set ds. is_digit c"
    and "pre = [] \<or> \<not> is_word_char (last pre)"
    and "post = [] \<or> \<not> is_word_char (hd post)"
  shows "\<exists>n r. int_of_digits ds = Inr n \<and>
           generate_bva_test_cases param_name param_type function_name constraints = Inr r \<and>
           VInt (n - 1) \<in> set r \<and> VInt n \<in> set r \<and> VInt (n + 1) \<in> set r"
proof -
  have "if pre = [] then \<not> False else \<not> is_word_char (last pre)"
    using assms(8) by auto
  from findall_numbers_finds_token [OF assms(6,7,9) this]
  have tok: "ds \<in> set (findall_numbers False (lower constraints))"
    by (simp add: assms(5))
  from type_values_not_boolean [OF assms(3)]
  obtain base where base: "type_values param_type = Inr base" ..
  from ints_of_short [OF assms(4)] obtain numbers where
    cn: "constraint_numbers constraints = Inr numbers" and
    toks: "map int_of_digits (findall_numbers False (lower constraints)) = map Inr numbers"
    unfolding constraint_numbers_def by blast
  from tok have "int_of_digits ds \<in> set (map int_of_digits (findall_numbers False (lower constraints)))"
    by simp
  then have "int_of_digits ds \<in> set (map Inr numbers)"
    by (simp only: toks)
  then obtain n where n: "int_of_digits ds = Inr n" "n \<in> set numbers"
    by auto
  have res: "generate_bva_test_cases param_name param_type function_name constraints
               = Inr (fromkeys (extend_values base numbers))"
    by (simp add: per_type_branch [OF assms(1,2) base] cn)
  from extend_values_mem [OF n(2), of base]
  have "VInt (n - 1) \<in> set (fromkeys (extend_values base numbers)) \<and>
        VInt n \<in> set (fromkeys (extend_values base numbers)) \<and>
        VInt (n + 1) \<in> set (fromkeys (extend_values base numbers))"
    by (simp add: fromkeys_set)
  with n(1) res show ?thesis
    by blast
qed

theorem bva_delimited_number_witness:
  "\<exists>r. generate_bva_test_cases ''count'' ''int'' ''setCount'' ''Max 10 items'' = Inr r \<and>
       VInt 9 \<in> set r \<and> VInt 10 \<in> set r \<and> VInt 11 \<in> set r"
proof -
  have h1: "\<not> str_in ''default'' (lower ''count'')"
    by code_simp
  have h2: "\<not> (''int'' = ''String'' \<and>
            (str_in ''toint'' (lower ''setCount'') \<or> str_in ''parse'' (lower ''setCount'')))"
    by simp
  have h3: "''int'' \<noteq> ''boolean''"
    by simp
  have h4: "\<forall>ds \<in> set (findall_numbers False (lower ''Max 10 items'')).
              int (length ds) \<le> int_max_str_digits"
    by code_simp
  have h5: "lower ''Max 10 items'' = ''max '' @ ''10'' @ '' items''"
    by code_simp
  have h6: "''10'' \<noteq> []"
    by simp
  have h7: "\<forall>c \<in> set ''10''. is_digit c"
    by code_simp
  have h8: "''max '' = [] \<or> \<not> is_word_char (last ''max '')"
    by code_simp
  have h9: "'' items'' = [] \<or> \<not> is_word_char (hd '' items'')"
    by code_simp
  have v: "int_of_digits ''10'' = Inr 10"
    by code_simp
  from bva_delimited_number [OF h1 h2 h3 h4 h5 h6 h7 h8 h9] v show ?thesis
    by auto
qed

text \<open>
  In the per-type branch, a whole-number token of more than 4300 digits in the
  lower-cased constraints makes the call raise \<^verbatim>\<open>ValueError\<close>.
\<close>

theorem bva_raises_on_long_number:
  assumes "\<not> str_in ''default'' (lower param_name)"
    and "\<not> (param_type = ''String'' \<and>
            (str_in ''toint'' (lower function_name) \<or> str_in ''parse'' (lower function_name)))"
    and "param_type \<noteq> ''boolean''"
    and "\<exists>ds \<in> set (findall_numbers False (lower constraints)).
           \<not> int (length ds) \<le> int_max_str_digits"
  shows "generate_bva_test_cases param_name param_type function_name constraints
           = Inl ValueError"
proof -
  from type_values_not_boolean [OF assms(3)]
  obtain base where base: "type_values param_type = Inr base" ..
  from ints_of_long [OF assms(4)]
  have "constraint_numbers constraints = Inl ValueError"
    by (simp add: constraint_numbers_def)
  then show ?thesis
    by (simp add: per_type_branch [OF assms(1,2) base])
qed

theorem bva_raises_on_long_number_witness:
  "generate_bva_test_cases ''size'' ''String'' ''setSize'' (''Up to '' @ replicate 5000 (CHR ''9''))
     = Inl ValueError"
proof -
  have h1: "\<not> str_in ''default'' (lower ''size'')"
    by code_simp
  have h2: "\<not> (''String'' = ''String'' \<and>
            (str_in ''toint'' (lower ''setSize'') \<or> str_in ''parse'' (lower ''setSize'')))"
    by code_simp
  have h3: "''String'' \<noteq> ''boolean''"
    by simp
  have lc: "lower_char (CHR ''9'') = CHR ''9''"
    by code_simp
  have lp: "lower ''Up to '' = ''up to ''"
    by code_simp
  have low: "lower (''Up to '' @ replicate 5000 (CHR ''9''))
               = ''up to '' @ replicate 5000 (CHR ''9'') @ []"
    using lp by (simp add: lower_def lc)
  have dg: "is_digit (CHR ''9'')"
    by code_simp
  have sp: "if ''up to '' = [] then \<not> False else \<not> is_word_char (last ''up to '')"
    by code_simp
  have "replicate 5000 (CHR ''9'')
          \<in> set (findall_numbers False (''up to '' @ replicate 5000 (CHR ''9'') @ []))"
    by (rule findall_numbers_finds_token [OF _ _ _ sp]) (simp_all add: dg)
  then have "replicate 5000 (CHR ''9'')
          \<in> set (findall_numbers False (lower (''Up to '' @ replicate 5000 (CHR ''9''))))"
    by (simp only: low)
  moreover have "\<not> int (length (replicate 5000 (CHR ''9''))) \<le> int_max_str_digits"
    by (simp add: int_max_str_digits_def)
  ultimately have h4: "\<exists>ds \<in> set (findall_numbers False
                           (lower (''Up to '' @ replicate 5000 (CHR ''9'')))).
                         \<not> int (length ds) \<le> int_max_str_digits"
    by blast
  show ?thesis
    by (rule bva_raises_on_long_number [OF h1 h2 h3 h4])
qed

end
